theory Spec2Isabelle
  imports Main "HOL-Library.Word"
begin

unbundle bit_operations_syntax

section \<open>Bit-packed version value\<close>

text \<open>
  The version header packs three fields into a \<open>uint32_t\<close>. The constants are the
  ones of namespace \<open>ra::version\<close>; the masks are computed as the source computes
  them, \<open>(1U << Bits) - 1\<close>.
\<close>

definition MajorBits :: nat where "MajorBits = 6"
definition MinorBits :: nat where "MinorBits = 10"
definition PatchBits :: nat where "PatchBits = 16"

definition MajorMask :: "32 word" where "MajorMask = push_bit MajorBits 1 - 1"
definition MinorMask :: "32 word" where "MinorMask = push_bit MinorBits 1 - 1"
definition PatchMask :: "32 word" where "PatchMask = push_bit PatchBits 1 - 1"

definition MajorShift :: nat where "MajorShift = 26"
definition MinorShift :: nat where "MinorShift = 16"
definition PatchShift :: nat where "PatchShift = 0"

text \<open>
  The getters compute in 32 bits and return \<open>uint8_t\<close> or \<open>uint16_t\<close>: the
  conversion of the return statement is the \<open>ucast\<close>.
\<close>

definition GetMajor :: "32 word \<Rightarrow> 8 word" where
  "GetMajor version = ucast (drop_bit MajorShift version AND MajorMask)"

definition GetMinor :: "32 word \<Rightarrow> 16 word" where
  "GetMinor version = ucast (drop_bit MinorShift version AND MinorMask)"

definition GetPatch :: "32 word \<Rightarrow> 16 word" where
  "GetPatch version = ucast (version AND PatchMask)"

text \<open>
  \<open>SetVersion\<close> starts with three \<open>assert\<close>s; a failed assertion aborts the
  program and is the result \<open>None\<close>. The comparison \<open>major <= MajorMask\<close> is made
  in \<open>unsigned\<close>, after the usual conversion of the narrower operand.
\<close>

definition SetVersion :: "8 word \<Rightarrow> 16 word \<Rightarrow> 16 word \<Rightarrow> 32 word option" where
  "SetVersion major minor patch =
     (if \<not> (ucast major :: 32 word) \<le> MajorMask then None
      else if \<not> (ucast minor :: 32 word) \<le> MinorMask then None
      else if \<not> (ucast patch :: 32 word) \<le> PatchMask then None
      else Some (push_bit MajorShift (ucast major) OR push_bit MinorShift (ucast minor)
                 OR (ucast patch AND PatchMask)))"


section \<open>CircularBuffer: the fixed-capacity ring buffer\<close>

text \<open>
  \<open>CircularBuffer<T, BuffSize>\<close> of \<open>DataStructure/Buffer/CircularBuffer.h\<close>. The
  array is a list of length \<open>BuffSize\<close>; the template parameter \<open>BuffSize\<close> is the
  first argument of every operation. The three indices are \<open>uint32_t\<close>: they are
  natural numbers here and every addition is reduced modulo \<open>2 ^ 32\<close> as the machine
  does it.
\<close>

record 'a CircularBuffer =
  m_Buffer :: "'a list"
  m_Head :: nat
  m_Tail :: nat
  m_Size :: nat

definition Advance :: "nat \<Rightarrow> nat \<Rightarrow> nat \<Rightarrow> nat" where
  "Advance BuffSize Pos Amount = ((Pos + Amount) mod 2 ^ 32) mod BuffSize"

definition Queue :: "nat \<Rightarrow> 'a \<Rightarrow> 'a CircularBuffer \<Rightarrow> bool \<times> 'a CircularBuffer" where
  "Queue BuffSize Item q =
     (if m_Size q = BuffSize then (False, q)
      else (True, q\<lparr>m_Buffer := (m_Buffer q)[m_Tail q := Item],
                     m_Tail := Advance BuffSize (m_Tail q) 1,
                     m_Size := (m_Size q + 1) mod 2 ^ 32\<rparr>))"

text \<open>
  \<open>Dequeue\<close> hands out the element under \<open>m_Head\<close>. The slot keeps its (moved-from)
  value; for the pointers the state machine stores, that is the same pointer.
\<close>

definition Dequeue :: "nat \<Rightarrow> 'a CircularBuffer \<Rightarrow> 'a option \<times> 'a CircularBuffer" where
  "Dequeue BuffSize q =
     (if m_Size q = 0 then (None, q)
      else (Some (m_Buffer q ! m_Head q),
            q\<lparr>m_Head := Advance BuffSize (m_Head q) 1,
               m_Size := (m_Size q + 2 ^ 32 - 1) mod 2 ^ 32\<rparr>))"

definition Size :: "'a CircularBuffer \<Rightarrow> nat" where
  "Size q = m_Size q"

text \<open>
  The elements a buffer holds, oldest first, and the representation invariant under which
  the array is never indexed out of range. Both are specification devices, not code.
\<close>

definition pending :: "nat \<Rightarrow> 'a CircularBuffer \<Rightarrow> 'a list" where
  "pending BuffSize q = map (\<lambda>k. m_Buffer q ! ((m_Head q + k) mod BuffSize)) [0..<m_Size q]"

definition ring_ok :: "nat \<Rightarrow> 'a CircularBuffer \<Rightarrow> bool" where
  "ring_ok BuffSize q \<longleftrightarrow>
     0 < BuffSize \<and> BuffSize < 2 ^ 32 \<and> length (m_Buffer q) = BuffSize \<and>
     m_Head q < BuffSize \<and> m_Size q \<le> BuffSize \<and>
     m_Tail q = (m_Head q + m_Size q) mod BuffSize"


section \<open>DynamicStateMachine: the reentrant dispatcher\<close>

text \<open>
  A \<open>StateType*\<close> is \<open>None\<close> for \<open>nullptr\<close> and \<open>Some a\<close> for the state object at
  address \<open>a\<close>.
\<close>

type_synonym handle = "nat option"

text \<open>
  A state object implements \<open>OnEnter\<close>, \<open>OnExit\<close> and \<open>Update\<close>. What the machine
  can observe of a callback is the sequence of calls the callback makes back into the
  machine while it runs, and, for \<open>Update\<close>, the returned pair. A callback is therefore
  its list of nested calls; \<open>Update\<close> gives that list together with
  \<open>(ReturnVal, pNewState)\<close> for each input.
\<close>

datatype 'i call = CallRun 'i | CallEnterState handle | CallEnterStateImmediate handle

record ('i, 'o) IDynamicState =
  OnEnter :: "'i call list"
  OnExit :: "'i call list"
  Update :: "'i \<Rightarrow> 'i call list \<times> 'o \<times> handle"

text \<open>
  The two ownership policies. \<open>SetState\<close> returns the new policy, the pointer \<open>Get()\<close>
  then returns, and the objects it destroyed: assigning to the \<open>unique_ptr\<close> of
  \<open>OwningPolicy\<close> deletes the object it held, \<open>NonOwningPolicy\<close> deletes nothing.
\<close>

datatype policy = NonOwningPolicy handle | OwningPolicy handle

fun Get :: "policy \<Rightarrow> handle" where
  "Get (NonOwningPolicy Storage) = Storage"
| "Get (OwningPolicy Storage) = Storage"

fun SetState :: "handle \<Rightarrow> policy \<Rightarrow> policy \<times> handle \<times> nat list" where
  "SetState NewState (NonOwningPolicy Storage) = (NonOwningPolicy NewState, NewState, [])"
| "SetState NewState (OwningPolicy Storage) =
     (OwningPolicy NewState, NewState, (case Storage of None \<Rightarrow> [] | Some old \<Rightarrow> [old]))"

fun Clear :: "policy \<Rightarrow> policy \<times> nat list" where
  "Clear (NonOwningPolicy Storage) = (NonOwningPolicy None, [])"
| "Clear (OwningPolicy Storage) =
     (OwningPolicy None, (case Storage of None \<Rightarrow> [] | Some old \<Rightarrow> [old]))"

datatype StateMachineStatus = Running | Halt

text \<open>
  The machine's three members, and a log of every callback the machine invokes and every
  object its policy destroys, in program order. The log is what the lifecycle claims are
  about; no operation reads it.
\<close>

datatype 'i event = EvOnEnter nat | EvOnExit nat | EvUpdate nat 'i | EvDestroy nat

record 'i DynamicStateMachine =
  m_InProgress :: bool
  m_StatePolicy :: policy
  m_DeferredState :: "handle CircularBuffer"
  trace :: "'i event list"

definition DeferredCapacity :: nat where
  "DeferredCapacity = 10"

definition record_event :: "'i event list \<Rightarrow> 'i DynamicStateMachine \<Rightarrow> 'i DynamicStateMachine" where
  "record_event es m = m\<lparr>trace := trace m @ es\<rparr>"

text \<open>
  Running a callback: its nested calls are made one after the other, each through
  \<open>nested\<close>, which is the machine's own public interface one level deeper. \<open>None\<close>
  means that a nested call did not return.
\<close>

primrec invoke :: "('c \<Rightarrow> 'm \<Rightarrow> 'm option) \<Rightarrow> 'c list \<Rightarrow> 'm \<Rightarrow> 'm option" where
  "invoke nested [] m = Some m"
| "invoke nested (c # cs) m =
     (case nested c m of None \<Rightarrow> None | Some m' \<Rightarrow> invoke nested cs m')"

definition GetFSM_State :: "'i DynamicStateMachine \<Rightarrow> StateMachineStatus" where
  "GetFSM_State m = (if Get (m_StatePolicy m) = None then Halt else Running)"

definition StateTransitionDeferred ::
  "handle \<Rightarrow> 'i DynamicStateMachine \<Rightarrow> 'i DynamicStateMachine \<times> handle" where
  "StateTransitionDeferred pState m =
     (let m' = m\<lparr>m_DeferredState := snd (Queue DeferredCapacity pState (m_DeferredState m))\<rparr>
      in (m', Get (m_StatePolicy m')))"

definition StateTransition ::
  "('i call \<Rightarrow> 'i DynamicStateMachine \<Rightarrow> 'i DynamicStateMachine option) \<Rightarrow>
   (nat \<Rightarrow> ('i, 'o) IDynamicState) \<Rightarrow> handle \<Rightarrow> 'i DynamicStateMachine \<Rightarrow>
   ('i DynamicStateMachine \<times> handle) option" where
  "StateTransition nested objs pState m =
     (case SetState pState (m_StatePolicy m) of (pol, pS, destroyed) \<Rightarrow>
        let m1 = record_event (map EvDestroy destroyed) (m\<lparr>m_StatePolicy := pol\<rparr>) in
        (case pS of
           None \<Rightarrow> Some (m1, pS)
         | Some a \<Rightarrow>
             (case invoke nested (OnEnter (objs a)) (record_event [EvOnEnter a] m1) of
                None \<Rightarrow> None
              | Some m2 \<Rightarrow> Some (m2, pS))))"

text \<open>
  \<open>InProgressGuard\<close>: the constructor stores \<open>true\<close> in the flag, the destructor
  stores \<open>false\<close>. The destructor runs on every return of the enclosing function.
\<close>

definition guard_enter :: "'i DynamicStateMachine \<Rightarrow> 'i DynamicStateMachine" where
  "guard_enter m = m\<lparr>m_InProgress := True\<rparr>"

definition guard_leave :: "'i DynamicStateMachine \<Rightarrow> 'i DynamicStateMachine" where
  "guard_leave m = m\<lparr>m_InProgress := False\<rparr>"

definition Run ::
  "('i call \<Rightarrow> 'i DynamicStateMachine \<Rightarrow> 'i DynamicStateMachine option) \<Rightarrow>
   (nat \<Rightarrow> ('i, 'o) IDynamicState) \<Rightarrow> 'i \<Rightarrow> 'i DynamicStateMachine \<Rightarrow>
   ('i DynamicStateMachine \<times> 'o option) option" where
  "Run nested objs In m =
     (let m0 = guard_enter m in
      case Get (m_StatePolicy m0) of
        None \<Rightarrow> Some (guard_leave m0, None)
      | Some pS \<Rightarrow>
          (case Update (objs pS) In of (script, ReturnVal, pNewState) \<Rightarrow>
             (case invoke nested script (record_event [EvUpdate pS In] m0) of
                None \<Rightarrow> None
              | Some m1 \<Rightarrow>
                  (case (if pNewState \<noteq> Some pS
                         then (case invoke nested (OnExit (objs pS)) (record_event [EvOnExit pS] m1) of
                                 None \<Rightarrow> None
                               | Some m2 \<Rightarrow> Some (fst (StateTransitionDeferred pNewState m2)))
                         else Some m1) of
                     None \<Rightarrow> None
                   | Some m3 \<Rightarrow>
                       (case Dequeue DeferredCapacity (m_DeferredState m3) of
                          (NextQueuedState, q) \<Rightarrow>
                            (case (case NextQueuedState of
                                     None \<Rightarrow> Some (m3\<lparr>m_DeferredState := q\<rparr>)
                                   | Some h \<Rightarrow>
                                       map_option fst
                                         (StateTransition nested objs h (m3\<lparr>m_DeferredState := q\<rparr>))) of
                               None \<Rightarrow> None
                             | Some m4 \<Rightarrow> Some (guard_leave m4, Some ReturnVal)))))))"

definition EnterState ::
  "('i call \<Rightarrow> 'i DynamicStateMachine \<Rightarrow> 'i DynamicStateMachine option) \<Rightarrow>
   (nat \<Rightarrow> ('i, 'o) IDynamicState) \<Rightarrow> handle \<Rightarrow> 'i DynamicStateMachine \<Rightarrow>
   ('i DynamicStateMachine \<times> handle) option" where
  "EnterState nested objs pState m =
     (if m_InProgress m then Some (StateTransitionDeferred pState m)
      else (case StateTransition nested objs pState (guard_enter m) of
              None \<Rightarrow> None
            | Some (m1, Result) \<Rightarrow> Some (guard_leave m1, Result)))"

definition EnterStateImmediate ::
  "('i call \<Rightarrow> 'i DynamicStateMachine \<Rightarrow> 'i DynamicStateMachine option) \<Rightarrow>
   (nat \<Rightarrow> ('i, 'o) IDynamicState) \<Rightarrow> handle \<Rightarrow> 'i DynamicStateMachine \<Rightarrow>
   ('i DynamicStateMachine \<times> handle) option" where
  "EnterStateImmediate nested objs pState m =
     (case StateTransition nested objs pState (guard_enter m) of
        None \<Rightarrow> None
      | Some (m1, Result) \<Rightarrow> Some (guard_leave m1, Result))"

text \<open>
  The public interface as a callback reaches it. The first argument bounds the depth to
  which callbacks may call back into the machine: a call made at depth 0 does not return
  (\<open>None\<close>). A call from outside is \<open>Run (reentrant d objs) objs In m\<close>, with \<open>d\<close>
  levels of nesting available to the callbacks it triggers.
\<close>

primrec reentrant ::
  "nat \<Rightarrow> (nat \<Rightarrow> ('i, 'o) IDynamicState) \<Rightarrow> 'i call \<Rightarrow> 'i DynamicStateMachine \<Rightarrow>
   'i DynamicStateMachine option" where
  "reentrant 0 objs = (\<lambda>c m. None)"
| "reentrant (Suc d) objs = (\<lambda>c m.
     (case c of
        CallRun In \<Rightarrow> map_option fst (Run (reentrant d objs) objs In m)
      | CallEnterState pState \<Rightarrow> map_option fst (EnterState (reentrant d objs) objs pState m)
      | CallEnterStateImmediate pState \<Rightarrow>
          map_option fst (EnterStateImmediate (reentrant d objs) objs pState m)))"

text \<open>A freshly constructed machine, for each policy.\<close>

definition fresh_queue :: "handle CircularBuffer" where
  "fresh_queue = \<lparr>m_Buffer = replicate 10 None, m_Head = 0, m_Tail = 0, m_Size = 0\<rparr>"

definition fresh_machine :: "policy \<Rightarrow> 'i DynamicStateMachine" where
  "fresh_machine pol =
     \<lparr>m_InProgress = False, m_StatePolicy = pol, m_DeferredState = fresh_queue, trace = []\<rparr>"

text \<open>Successive calls of \<open>Run\<close> from outside, one per input, collecting the outputs.\<close>

primrec Runs ::
  "('i call \<Rightarrow> 'i DynamicStateMachine \<Rightarrow> 'i DynamicStateMachine option) \<Rightarrow>
   (nat \<Rightarrow> ('i, 'o) IDynamicState) \<Rightarrow> 'i list \<Rightarrow> 'i DynamicStateMachine \<Rightarrow>
   ('i DynamicStateMachine \<times> 'o option list) option" where
  "Runs nested objs [] m = Some (m, [])"
| "Runs nested objs (In # Ins) m =
     (case Run nested objs In m of
        None \<Rightarrow> None
      | Some (m1, out) \<Rightarrow>
          (case Runs nested objs Ins m1 of
             None \<Rightarrow> None
           | Some (m2, outs) \<Rightarrow> Some (m2, out # outs)))"


text \<open>
  Specification devices for the machine: the requests waiting in the deferred queue, oldest
  first; the representation invariant of that queue; a summary of the four components of a
  machine; and the projections of the log on \<open>OnEnter\<close> and on \<open>OnExit\<close> calls.
\<close>

definition waiting :: "'i DynamicStateMachine \<Rightarrow> handle list" where
  "waiting m = pending DeferredCapacity (m_DeferredState m)"

definition machine_ok :: "'i DynamicStateMachine \<Rightarrow> bool" where
  "machine_ok m \<longleftrightarrow> ring_ok DeferredCapacity (m_DeferredState m)"

definition snapshot ::
  "'i DynamicStateMachine \<Rightarrow> bool \<Rightarrow> policy \<Rightarrow> handle list \<Rightarrow> 'i event list \<Rightarrow> bool" where
  "snapshot m f pol w tr \<longleftrightarrow>
     m_InProgress m = f \<and> m_StatePolicy m = pol \<and> waiting m = w \<and> trace m = tr \<and> machine_ok m"

fun entered :: "'i event list \<Rightarrow> nat list" where
  "entered [] = []"
| "entered (EvOnEnter a # es) = a # entered es"
| "entered (e # es) = entered es"

fun exited :: "'i event list \<Rightarrow> nat list" where
  "exited [] = []"
| "exited (EvOnExit a # es) = a # exited es"
| "exited (e # es) = exited es"

text \<open>
  The objects of the repository's state-machine test: state A at address 1 answers input 5
  with \<open>("Stay A", A)\<close> and input 20 with \<open>("To B", B)\<close>; state B at address 2 answers
  input 0 with \<open>("Terminate", nullptr)\<close>. A mock answers every other input with the
  default pair (empty string, null pointer). The objects at all other addresses stay in
  their own state. No callback of these objects calls back into the machine.
\<close>

definition mock_objs :: "nat \<Rightarrow> (int, string) IDynamicState" where
  "mock_objs a =
     \<lparr>OnEnter = [], OnExit = [],
      Update = (\<lambda>In.
        if a = 1 then (if In = 5 then ([], ''Stay A'', Some 1)
                       else if In = 20 then ([], ''To B'', Some 2)
                       else ([], [], None))
        else if a = 2 then (if In = 0 then ([], ''Terminate'', None) else ([], [], None))
        else ([], ''Stay'', Some a))\<rparr>"

text \<open>
  Objects whose callbacks do call back: the \<open>Update\<close> of the state at address 1 calls
  \<open>EnterStateImmediate(2)\<close>, then \<open>EnterState(3)\<close>, then \<open>EnterState(4)\<close>, and asks to
  stay. The state at address 5 calls \<open>EnterState(6)\<close> and \<open>EnterState(7)\<close> from its
  \<open>Update\<close> and asks for state 8.
\<close>

definition nesting_objs :: "nat \<Rightarrow> (int, string) IDynamicState" where
  "nesting_objs a =
     \<lparr>OnEnter = [], OnExit = [],
      Update = (\<lambda>In.
        if a = 1 then ([CallEnterStateImmediate (Some 2), CallEnterState (Some 3),
                        CallEnterState (Some 4)], ''A'', Some 1)
        else if a = 5 then ([CallEnterState (Some 6), CallEnterState (Some 7)], ''E'', Some 8)
        else ([], ''Stay'', Some a))\<rparr>"

text \<open>Machines for the examples: running in a given state, with a given deferred queue.\<close>

definition running_in :: "nat \<Rightarrow> handle CircularBuffer \<Rightarrow> int DynamicStateMachine" where
  "running_in a q =
     \<lparr>m_InProgress = False, m_StatePolicy = NonOwningPolicy (Some a), m_DeferredState = q,
      trace = []\<rparr>"

definition halted_with :: "handle CircularBuffer \<Rightarrow> int DynamicStateMachine" where
  "halted_with q =
     \<lparr>m_InProgress = False, m_StatePolicy = OwningPolicy None, m_DeferredState = q, trace = []\<rparr>"

definition full_queue :: "handle CircularBuffer" where
  "full_queue =
     \<lparr>m_Buffer = [Some 3, Some 4, Some 5, Some 6, Some 7, Some 8, Some 9, Some 10, Some 11,
                  Some 12],
      m_Head = 0, m_Tail = 0, m_Size = 10\<rparr>"

definition queue_of_two :: "handle CircularBuffer" where
  "queue_of_two =
     \<lparr>m_Buffer = [Some 3, Some 4, None, None, None, None, None, None, None, None],
      m_Head = 0, m_Tail = 2, m_Size = 2\<rparr>"


section \<open>CachedBuffer: accumulate and flush\<close>

text \<open>
  \<open>CachedBuffer<BufferSize>\<close> of \<open>DataStructure/Buffer/CachedBuffer.h\<close>. The array
  \<open>m_Buffer\<close> is the field \<open>m_Cache\<close> (the name \<open>m_Buffer\<close> is taken by the ring
  buffer); its length is \<open>BufferSize\<close>. The callback receives the bytes and the state
  behind \<open>m_CbArgs\<close>, and returns the \<open>uint32_t\<close> count of bytes it wrote together with
  the new state. Offsets and sizes are \<open>size_t\<close>; they are natural numbers here, and the
  one subtraction that can wrap around is a branch of its own.
\<close>

datatype fault = OutOfBounds

record 's CachedBuffer =
  m_Cache :: "8 word list"
  m_BufferOffset :: nat
  m_Callback :: "8 word list \<Rightarrow> 's \<Rightarrow> 32 word \<times> 's"
  m_CbArgs :: 's

text \<open>
  \<open>std::memcpy(dst + off, src, n)\<close> into an array: writing past the end of the array is
  undefined behaviour, the result \<open>Inl OutOfBounds\<close>.
\<close>

definition memcpy :: "8 word list \<Rightarrow> nat \<Rightarrow> 8 word list \<Rightarrow> fault + 8 word list" where
  "memcpy buf off src =
     (if off + length src \<le> length buf
      then Inr (take off buf @ src @ drop (off + length src) buf)
      else Inl OutOfBounds)"

text \<open>
  The file holds two versions of the class, which differ in \<open>EmptyBufferCache\<close>. The
  first clears the cache only when the callback reports every cached byte written.
\<close>

definition EmptyBufferCache :: "'s CachedBuffer \<Rightarrow> fault + bool \<times> 's CachedBuffer" where
  "EmptyBufferCache b =
     (if m_BufferOffset b = 0 then Inr (True, b)
      else (let WriteSize = m_BufferOffset b in
            case m_Callback b (take WriteSize (m_Cache b)) (m_CbArgs b) of
              (BytesWritten, args) \<Rightarrow>
                let b1 = b\<lparr>m_CbArgs := args\<rparr>;
                    b2 = (if unat BytesWritten = WriteSize then b1\<lparr>m_BufferOffset := 0\<rparr> else b1)
                in Inr (m_BufferOffset b2 = 0, b2)))"

text \<open>
  The second version fails only when the callback reports no byte written; otherwise it
  moves the bytes that are left to the front of the array. When the callback reports more
  bytes than were cached, \<open>m_BufferOffset - BytesWritten\<close> wraps around and the
  \<open>memcpy\<close> leaves the array.
\<close>

definition EmptyBufferCache_v2 :: "'s CachedBuffer \<Rightarrow> fault + bool \<times> 's CachedBuffer" where
  "EmptyBufferCache_v2 b =
     (if m_BufferOffset b = 0 then Inr (True, b)
      else (case m_Callback b (take (m_BufferOffset b) (m_Cache b)) (m_CbArgs b) of
              (BytesWritten, args) \<Rightarrow>
                let b1 = b\<lparr>m_CbArgs := args\<rparr> in
                if unat BytesWritten = 0 then Inr (False, b1)
                else if m_BufferOffset b < unat BytesWritten then Inl OutOfBounds
                else (let BytesLeft = m_BufferOffset b - unat BytesWritten in
                      case memcpy (m_Cache b) 0
                             (take BytesLeft (drop (unat BytesWritten) (m_Cache b))) of
                        Inl e \<Rightarrow> Inl e
                      | Inr buf \<Rightarrow> Inr (True, b1\<lparr>m_Cache := buf, m_BufferOffset := BytesLeft\<rparr>))))"

text \<open>
  \<open>Store\<close> is the same text in both versions; its first argument is the version of
  \<open>EmptyBufferCache\<close> it calls.
\<close>

definition Store ::
  "('s CachedBuffer \<Rightarrow> fault + bool \<times> 's CachedBuffer) \<Rightarrow> 8 word list \<Rightarrow> 's CachedBuffer \<Rightarrow>
   fault + bool \<times> 's CachedBuffer" where
  "Store flush Data b =
     (if length (m_Cache b) < length Data then
        (case flush b of
           Inl e \<Rightarrow> Inl e
         | Inr (ok, b1) \<Rightarrow>
             if \<not> ok then Inr (False, b1)
             else (case m_Callback b1 Data (m_CbArgs b1) of
                     (n, args) \<Rightarrow> Inr (unat n = length Data, b1\<lparr>m_CbArgs := args\<rparr>)))
      else (let BufferSpace = length (m_Cache b) - m_BufferOffset b in
            case (if BufferSpace < length Data then flush b else Inr (True, b)) of
              Inl e \<Rightarrow> Inl e
            | Inr (ok, b1) \<Rightarrow>
                if \<not> ok then Inr (False, b1)
                else (case memcpy (m_Cache b1) (m_BufferOffset b1) Data of
                        Inl e \<Rightarrow> Inl e
                      | Inr buf \<Rightarrow>
                          Inr (True, b1\<lparr>m_Cache := buf,
                                         m_BufferOffset := m_BufferOffset b1 + length Data\<rparr>))))"

definition Flush ::
  "('s CachedBuffer \<Rightarrow> fault + bool \<times> 's CachedBuffer) \<Rightarrow> 's CachedBuffer \<Rightarrow>
   fault + 's CachedBuffer" where
  "Flush flush b = (case flush b of Inl e \<Rightarrow> Inl e | Inr (ok, b1) \<Rightarrow> Inr b1)"




section \<open>Version value: the fields survive packing\<close>

lemma version_masks:
  "MajorMask = mask 6" "MinorMask = mask 10" "PatchMask = mask 16"
  by (simp_all add: MajorMask_def MinorMask_def PatchMask_def MajorBits_def MinorBits_def
      PatchBits_def mask_eq_exp_minus_1)

lemma major_fits: "(major :: 8 word) \<le> 63 \<Longrightarrow> take_bit 6 major = major"
proof -
  assume "major \<le> 63"
  then have "major < 2 ^ 6" by (simp add: word_le_nat_alt word_less_nat_alt)
  then show ?thesis by (simp add: take_bit_eq_mask less_mask_eq)
qed

lemma minor_fits: "(minor :: 16 word) \<le> 1023 \<Longrightarrow> take_bit 10 minor = minor"
proof -
  assume "minor \<le> 1023"
  then have "minor < 2 ^ 10" by (simp add: word_le_nat_alt word_less_nat_alt)
  then show ?thesis by (simp add: take_bit_eq_mask less_mask_eq)
qed

lemma unat_ucast_8_32: "unat (ucast (w :: 8 word) :: 32 word) = unat w"
proof -
  have "unat w < 2 ^ 8" using unsigned_less [of w, where 'a = nat] by simp
  then have "unat w < 2 ^ 32" by simp
  then show ?thesis by (simp add: unsigned_ucast_eq take_bit_nat_eq_self)
qed

lemma unat_ucast_16_32: "unat (ucast (w :: 16 word) :: 32 word) = unat w"
proof -
  have "unat w < 2 ^ 16" using unsigned_less [of w, where 'a = nat] by simp
  then have "unat w < 2 ^ 32" by simp
  then show ?thesis by (simp add: unsigned_ucast_eq take_bit_nat_eq_self)
qed

lemma assert_major: "(major :: 8 word) \<le> 63 \<Longrightarrow> (ucast major :: 32 word) \<le> mask 6"
  by (simp add: word_le_nat_alt unat_ucast_8_32 mask_eq_exp_minus_1)

lemma assert_minor: "(minor :: 16 word) \<le> 1023 \<Longrightarrow> (ucast minor :: 32 word) \<le> mask 10"
  by (simp add: word_le_nat_alt unat_ucast_16_32 mask_eq_exp_minus_1)

lemma assert_patch: "(ucast (patch :: 16 word) :: 32 word) \<le> mask 16"
  using unsigned_less [of patch, where 'a = nat]
  by (simp add: word_le_nat_alt unat_ucast_16_32 mask_eq_exp_minus_1)

lemma unpack_major:
  assumes "take_bit 6 (major :: 8 word) = major" and "take_bit 10 (minor :: 16 word) = minor"
  shows "(ucast (drop_bit 26 (push_bit 26 (ucast major :: 32 word) OR push_bit 16 (ucast minor)
            OR (ucast (patch :: 16 word) AND mask 16)) AND mask 6) :: 8 word) = major"
proof -
  have a: "\<And>n. bit major n \<Longrightarrow> n < 6" using assms(1) by (metis bit_take_bit_iff)
  have b: "\<And>n. bit minor n \<Longrightarrow> n < 10" using assms(2) by (metis bit_take_bit_iff)
  show ?thesis
    by (rule bit_word_eqI) (auto simp add: bit_simps dest: a b)
qed

lemma unpack_minor:
  assumes "take_bit 6 (major :: 8 word) = major" and "take_bit 10 (minor :: 16 word) = minor"
  shows "(ucast (drop_bit 16 (push_bit 26 (ucast major :: 32 word) OR push_bit 16 (ucast minor)
            OR (ucast (patch :: 16 word) AND mask 16)) AND mask 10) :: 16 word) = minor"
proof -
  have a: "\<And>n. bit major n \<Longrightarrow> n < 6" using assms(1) by (metis bit_take_bit_iff)
  have b: "\<And>n. bit minor n \<Longrightarrow> n < 10" using assms(2) by (metis bit_take_bit_iff)
  show ?thesis
    by (rule bit_word_eqI) (auto simp add: bit_simps dest: a b)
qed

lemma unpack_patch:
  "(ucast ((push_bit 26 (ucast (major :: 8 word) :: 32 word) OR push_bit 16 (ucast (minor :: 16 word))
      OR (ucast (patch :: 16 word) AND mask 16)) AND mask 16) :: 16 word) = patch"
  by (rule bit_word_eqI) (auto simp add: bit_simps)

text \<open>
  Claim C9. For every major in 0..63, every minor in 0..1023 and every patch (any 16-bit
  value, 0..65535), \<open>SetVersion\<close> passes its assertions and returns a value from which
  \<open>GetMajor\<close>, \<open>GetMinor\<close> and \<open>GetPatch\<close> read the three fields back.
\<close>

theorem SetVersion_roundtrip:
  "major \<le> 63 \<Longrightarrow> minor \<le> 1023 \<Longrightarrow>
     \<exists>v. SetVersion major minor patch = Some v
       \<and> GetMajor v = major \<and> GetMinor v = minor \<and> GetPatch v = patch"
proof -
  assume M: "major \<le> 63" and N: "minor \<le> 1023"
  have v: "SetVersion major minor patch =
      Some (push_bit 26 (ucast major) OR push_bit 16 (ucast minor) OR (ucast patch AND mask 16))"
    using assert_major [OF M] assert_minor [OF N] assert_patch [of patch]
    by (simp add: SetVersion_def version_masks MajorShift_def MinorShift_def)
  show ?thesis
    unfolding v
    using unpack_major [OF major_fits [OF M] minor_fits [OF N], of patch]
      unpack_minor [OF major_fits [OF M] minor_fits [OF N], of patch]
      unpack_patch [of major minor patch]
    by (simp add: GetMajor_def GetMinor_def GetPatch_def version_masks MajorShift_def MinorShift_def)
qed

theorem SetVersion_roundtrip_witness:
  "(63 :: 8 word) \<le> 63 \<and> (1023 :: 16 word) \<le> 1023 \<and>
     (\<exists>v. SetVersion 63 1023 65535 = Some v
       \<and> GetMajor v = 63 \<and> GetMinor v = 1023 \<and> GetPatch v = 65535)"
  using SetVersion_roundtrip [of 63 1023 65535] by simp


section \<open>CircularBuffer: first in, first out, never more than the capacity\<close>

lemma pending_length: "length (pending N q) = m_Size q"
  by (simp add: pending_def)

lemma Queue_full: "m_Size q = N \<Longrightarrow> Queue N x q = (False, q)"
  by (simp add: Queue_def)

lemma ring_slots_differ:
  assumes "k < s" "s < N"
  shows "(h + k) mod N \<noteq> (h + s) mod (N::nat)"
proof
  assume "(h + k) mod N = (h + s) mod N"
  then have "(h + s) mod N = (h + k) mod N" by simp
  then have "N dvd (h + s) - (h + k)"
    using assms by (simp add: mod_eq_dvd_iff_nat)
  then have "N dvd s - k" by simp
  then show False using assms by (auto dest: dvd_imp_le)
qed

lemma Queue_room:
  assumes "ring_ok N q" "m_Size q < N"
  shows "fst (Queue N x q) = True" "ring_ok N (snd (Queue N x q))"
    "pending N (snd (Queue N x q)) = pending N q @ [x]"
proof -
  show "fst (Queue N x q) = True" using assms by (simp add: Queue_def)
  have N: "0 < N" "N < 2 ^ 32" "length (m_Buffer q) = N" "m_Head q < N"
    "m_Tail q = (m_Head q + m_Size q) mod N"
    using assms(1) by (simp_all add: ring_ok_def)
  have t: "m_Tail q < N" using N by simp
  then have "(m_Tail q + 1) mod 2 ^ 32 = Suc (m_Tail q)"
    using N(2) by simp
  then have "Advance N (m_Tail q) 1 = Suc (m_Tail q) mod N"
    by (simp add: Advance_def)
  then have "Advance N (m_Tail q) 1 = Suc ((m_Head q + m_Size q) mod N) mod N"
    using N(5) by simp
  then have adv: "Advance N (m_Tail q) 1 = (m_Head q + Suc (m_Size q)) mod N"
    by (simp add: mod_Suc_eq)
  have sz: "(m_Size q + 1) mod 2 ^ 32 = Suc (m_Size q)"
    using assms(2) N by simp
  show "ring_ok N (snd (Queue N x q))"
    using assms N adv sz by (simp add: Queue_def ring_ok_def)
  have old: "(m_Buffer q)[m_Tail q := x] ! ((m_Head q + k) mod N) = m_Buffer q ! ((m_Head q + k) mod N)"
    if "k < m_Size q" for k
  proof -
    have "m_Tail q \<noteq> (m_Head q + k) mod N"
      using ring_slots_differ [OF that assms(2), of "m_Head q"] N(5) by simp
    then show ?thesis by (rule nth_list_update_neq)
  qed
  have new: "(m_Buffer q)[m_Tail q := x] ! ((m_Head q + m_Size q) mod N) = x"
    using N t by simp
  show "pending N (snd (Queue N x q)) = pending N q @ [x]"
    using assms(2) old new sz by (simp add: Queue_def pending_def)
qed

lemma Dequeue_empty: "m_Size q = 0 \<Longrightarrow> Dequeue N q = (None, q)"
  by (simp add: Dequeue_def)

lemma Dequeue_some:
  assumes "ring_ok N q" "pending N q = x # xs"
  shows "fst (Dequeue N q) = Some x" "ring_ok N (snd (Dequeue N q))"
    "pending N (snd (Dequeue N q)) = xs"
proof -
  have N: "0 < N" "N < 2 ^ 32" "length (m_Buffer q) = N" "m_Head q < N" "m_Size q \<le> N"
    "m_Tail q = (m_Head q + m_Size q) mod N"
    using assms(1) by (simp_all add: ring_ok_def)
  have len: "m_Size q = Suc (length xs)"
    using pending_length [of N q] assms(2) by simp
  have sz: "(m_Size q + 2 ^ 32 - 1) mod 2 ^ 32 = length xs"
    using len N by simp
  have adv: "Advance N (m_Head q) 1 = Suc (m_Head q) mod N"
    using N by (simp add: Advance_def)
  have split: "pending N q = m_Buffer q ! m_Head q
      # map (\<lambda>k. m_Buffer q ! ((m_Head q + Suc k) mod N)) [0..<length xs]"
    using N len by (simp add: pending_def upt_conv_Cons map_Suc_upt [symmetric] del: upt_Suc)
  show "fst (Dequeue N q) = Some x"
    using assms(2) split len by (simp add: Dequeue_def)
  have shift: "\<And>k. (Suc (m_Head q) mod N + k) mod N = (m_Head q + Suc k) mod N"
    by (simp add: mod_add_left_eq)
  show "ring_ok N (snd (Dequeue N q))"
    using N len sz adv shift [of "length xs"] by (simp add: Dequeue_def ring_ok_def)
  show "pending N (snd (Dequeue N q)) = xs"
    using assms(2) split len sz adv by (simp add: Dequeue_def pending_def shift)
qed


section \<open>DynamicStateMachine: one call of Run, step by step\<close>

text \<open>
  The lemmas of this section follow a machine through \<open>Run\<close> for callbacks whose only
  nested calls are \<open>EnterState\<close> calls. Such calls find the flag set and are deferred.
\<close>

lemma take_take_append: "take n (take n xs @ ys) = take n (xs @ ys)"
  by (cases "length xs \<le> n") simp_all

lemma SetState_result [simp]:
  "fst (snd (SetState h pol)) = h" "Get (fst (SetState h pol)) = h"
  by (cases pol; simp)+

lemma defer_snapshot:
  assumes "snapshot m f pol w tr"
  shows "snapshot (fst (StateTransitionDeferred h m)) f pol (take DeferredCapacity (w @ [h])) tr"
    and "snd (StateTransitionDeferred h m) = Get pol"
proof -
  let ?q = "m_DeferredState m"
  have ok: "ring_ok DeferredCapacity ?q" and w: "pending DeferredCapacity ?q = w"
    using assms by (simp_all add: snapshot_def machine_ok_def waiting_def)
  have len: "length w = m_Size ?q" using w pending_length [of DeferredCapacity ?q] by simp
  have le: "m_Size ?q \<le> DeferredCapacity" using ok by (simp add: ring_ok_def)
  show "snd (StateTransitionDeferred h m) = Get pol"
    using assms by (simp add: StateTransitionDeferred_def snapshot_def Let_def)
  show "snapshot (fst (StateTransitionDeferred h m)) f pol (take DeferredCapacity (w @ [h])) tr"
  proof (cases "m_Size ?q = DeferredCapacity")
    case True
    then show ?thesis
      using assms len by (simp add: StateTransitionDeferred_def Queue_full Let_def snapshot_def
          machine_ok_def waiting_def)
  next
    case False
    then have room: "m_Size ?q < DeferredCapacity" using le by simp
    show ?thesis
      using assms len room Queue_room(2,3) [OF ok room, of h]
      by (simp add: StateTransitionDeferred_def Let_def snapshot_def machine_ok_def waiting_def)
  qed
qed

lemma reentrant_CallEnterState:
  "reentrant (Suc d) objs (CallEnterState h) m =
     map_option fst (EnterState (reentrant d objs) objs h m)"
  by simp

lemma reentrant_CallEnterStateImmediate:
  "reentrant (Suc d) objs (CallEnterStateImmediate h) m =
     map_option fst (EnterStateImmediate (reentrant d objs) objs h m)"
  by simp

lemma reentrant_CallRun:
  "reentrant (Suc d) objs (CallRun In) m = map_option fst (Run (reentrant d objs) objs In m)"
  by simp

declare reentrant.simps [simp del]

lemma invoke_defers:
  "snapshot m True pol w tr \<Longrightarrow>
     \<exists>m'. invoke (reentrant (Suc d) objs) (map CallEnterState hs) m = Some m'
       \<and> snapshot m' True pol (take DeferredCapacity (w @ hs)) tr"
proof (induction hs arbitrary: m w)
  case Nil
  then have "length w \<le> DeferredCapacity"
    using pending_length [of DeferredCapacity "m_DeferredState m"]
    by (simp add: snapshot_def machine_ok_def waiting_def ring_ok_def)
  then show ?case using Nil by simp
next
  case (Cons h hs)
  let ?m1 = "fst (StateTransitionDeferred h m)"
  have flag: "m_InProgress m" using Cons.prems by (simp add: snapshot_def)
  have step: "reentrant (Suc d) objs (CallEnterState h) m = Some ?m1"
    using flag by (simp add: reentrant_CallEnterState EnterState_def)
  have s1: "snapshot ?m1 True pol (take DeferredCapacity (w @ [h])) tr"
    by (rule defer_snapshot(1) [OF Cons.prems])
  from Cons.IH [OF s1] obtain m' where
    m': "invoke (reentrant (Suc d) objs) (map CallEnterState hs) ?m1 = Some m'"
    "snapshot m' True pol (take DeferredCapacity (take DeferredCapacity (w @ [h]) @ hs)) tr"
    by blast
  have "invoke (reentrant (Suc d) objs) (map CallEnterState (h # hs)) m = Some m'"
    using step m'(1) by simp
  moreover have "take DeferredCapacity (take DeferredCapacity (w @ [h]) @ hs)
      = take DeferredCapacity (w @ h # hs)"
    using take_take_append [of DeferredCapacity "w @ [h]" hs] by simp
  then have "snapshot m' True pol (take DeferredCapacity (w @ h # hs)) tr"
    using m'(2) by (simp only:)
  ultimately show ?case by blast
qed

lemma transition_null:
  assumes "snapshot m f pol w tr"
  shows "\<exists>m'. StateTransition nested objs None m = Some (m', None)
      \<and> snapshot m' f (fst (SetState None pol)) w
            (tr @ map EvDestroy (snd (snd (SetState None pol))))"
  using assms
  by (cases pol)
    (simp_all add: StateTransition_def snapshot_def record_event_def machine_ok_def waiting_def
      split: option.splits)

lemma transition_enter:
  assumes "snapshot m True pol w tr" and "OnEnter (objs b) = map CallEnterState es"
  shows "\<exists>m'. StateTransition (reentrant (Suc d) objs) objs (Some b) m = Some (m', Some b)
      \<and> snapshot m' True (fst (SetState (Some b) pol)) (take DeferredCapacity (w @ es))
            (tr @ map EvDestroy (snd (snd (SetState (Some b) pol))) @ [EvOnEnter b])"
proof -
  let ?pol = "fst (SetState (Some b) pol)"
  let ?dead = "snd (snd (SetState (Some b) pol))"
  let ?m1 = "record_event [EvOnEnter b]
      (record_event (map EvDestroy ?dead) (m\<lparr>m_StatePolicy := ?pol\<rparr>))"
  have s1: "snapshot ?m1 True ?pol w (tr @ map EvDestroy ?dead @ [EvOnEnter b])"
    using assms(1) by (simp add: snapshot_def record_event_def machine_ok_def waiting_def)
  from invoke_defers [OF s1, of d objs es] obtain m' where
    m': "invoke (reentrant (Suc d) objs) (map CallEnterState es) ?m1 = Some m'"
    "snapshot m' True ?pol (take DeferredCapacity (w @ es))
       (tr @ map EvDestroy ?dead @ [EvOnEnter b])"
    by blast
  have pol: "m_StatePolicy m = pol" using assms(1) by (simp add: snapshot_def)
  have "StateTransition (reentrant (Suc d) objs) objs (Some b) m = Some (m', Some b)"
    using m'(1) assms(2) pol
    by (simp add: StateTransition_def split_beta Let_def)
  then show ?thesis using m'(2) by blast
qed


lemma guard_snapshot:
  "snapshot m f pol w tr \<Longrightarrow> snapshot (guard_enter m) True pol w tr"
  "snapshot m f pol w tr \<Longrightarrow> snapshot (guard_leave m) False pol w tr"
  by (simp_all add: snapshot_def guard_enter_def guard_leave_def machine_ok_def waiting_def)

lemma record_snapshot:
  "snapshot m f pol w tr \<Longrightarrow> snapshot (record_event es m) f pol w (tr @ es)"
  by (simp add: snapshot_def record_event_def machine_ok_def waiting_def)

lemma dequeue_snapshot_empty:
  assumes "snapshot m f pol [] tr"
  shows "Dequeue DeferredCapacity (m_DeferredState m) = (None, m_DeferredState m)"
proof -
  have "m_Size (m_DeferredState m) = 0"
    using assms pending_length [of DeferredCapacity "m_DeferredState m"]
    by (simp add: snapshot_def waiting_def)
  then show ?thesis by (rule Dequeue_empty)
qed

lemma dequeue_snapshot_some:
  assumes "snapshot m f pol (x # w) tr"
  shows "fst (Dequeue DeferredCapacity (m_DeferredState m)) = Some x"
    and "snapshot (m\<lparr>m_DeferredState := snd (Dequeue DeferredCapacity (m_DeferredState m))\<rparr>)
           f pol w tr"
proof -
  have ok: "ring_ok DeferredCapacity (m_DeferredState m)"
    and w: "pending DeferredCapacity (m_DeferredState m) = x # w"
    using assms by (simp_all add: snapshot_def machine_ok_def waiting_def)
  show "fst (Dequeue DeferredCapacity (m_DeferredState m)) = Some x"
    by (rule Dequeue_some(1) [OF ok w])
  show "snapshot (m\<lparr>m_DeferredState := snd (Dequeue DeferredCapacity (m_DeferredState m))\<rparr>)
           f pol w tr"
    using assms Dequeue_some(2,3) [OF ok w]
    by (simp add: snapshot_def machine_ok_def waiting_def)
qed

text \<open>The first half of Run: Update, and OnExit with the push when a change is requested.\<close>

lemma Run_until_dequeue:
  assumes s: "snapshot m f pol w tr" and act: "Get pol = Some a"
    and upd: "Update (objs a) In = (map CallEnterState us, out, r)"
    and ext: "r \<noteq> Some a \<Longrightarrow> OnExit (objs a) = map CallEnterState xs"
  shows "\<exists>m3. snapshot m3 True pol
            (take DeferredCapacity (w @ us @ (if r = Some a then [] else xs @ [r])))
            (tr @ [EvUpdate a In] @ (if r = Some a then [] else [EvOnExit a]))
        \<and> Run (reentrant (Suc d) objs) objs In m =
            (case Dequeue DeferredCapacity (m_DeferredState m3) of
               (NextQueuedState, q) \<Rightarrow>
                 (case (case NextQueuedState of
                          None \<Rightarrow> Some (m3\<lparr>m_DeferredState := q\<rparr>)
                        | Some h \<Rightarrow>
                            map_option fst
                              (StateTransition (reentrant (Suc d) objs) objs h
                                 (m3\<lparr>m_DeferredState := q\<rparr>))) of
                    None \<Rightarrow> None
                  | Some m4 \<Rightarrow> Some (guard_leave m4, Some out)))"
proof -
  let ?n = "reentrant (Suc d) objs"
  let ?m0 = "record_event [EvUpdate a In] (guard_enter m)"
  have pol: "Get (m_StatePolicy (guard_enter m)) = Some a"
    using s act by (simp add: snapshot_def guard_enter_def)
  have s0: "snapshot ?m0 True pol w (tr @ [EvUpdate a In])"
    by (rule record_snapshot [OF guard_snapshot(1) [OF s]])
  from invoke_defers [OF s0, of d objs us] obtain m1 where
    m1: "invoke ?n (map CallEnterState us) ?m0 = Some m1"
    "snapshot m1 True pol (take DeferredCapacity (w @ us)) (tr @ [EvUpdate a In])"
    by blast
  show ?thesis
  proof (cases "r = Some a")
    case True
    have "Run ?n objs In m =
        (case Dequeue DeferredCapacity (m_DeferredState m1) of
           (NextQueuedState, q) \<Rightarrow>
             (case (case NextQueuedState of
                      None \<Rightarrow> Some (m1\<lparr>m_DeferredState := q\<rparr>)
                    | Some h \<Rightarrow>
                        map_option fst (StateTransition ?n objs h (m1\<lparr>m_DeferredState := q\<rparr>))) of
                None \<Rightarrow> None
              | Some m4 \<Rightarrow> Some (guard_leave m4, Some out)))"
      using pol upd m1(1) True by (simp add: Run_def Let_def)
    then show ?thesis using m1(2) True by auto
  next
    case False
    let ?m1x = "record_event [EvOnExit a] m1"
    have s1x: "snapshot ?m1x True pol (take DeferredCapacity (w @ us))
        (tr @ [EvUpdate a In] @ [EvOnExit a])"
      using record_snapshot [OF m1(2), of "[EvOnExit a]"] by simp
    from invoke_defers [OF s1x, of d objs xs] obtain m2 where
      m2: "invoke ?n (map CallEnterState xs) ?m1x = Some m2"
      "snapshot m2 True pol (take DeferredCapacity (take DeferredCapacity (w @ us) @ xs))
         (tr @ [EvUpdate a In] @ [EvOnExit a])"
      by blast
    let ?m3 = "fst (StateTransitionDeferred r m2)"
    have s3: "snapshot ?m3 True pol
        (take DeferredCapacity (take DeferredCapacity (take DeferredCapacity (w @ us) @ xs) @ [r]))
        (tr @ [EvUpdate a In] @ [EvOnExit a])"
      by (rule defer_snapshot(1) [OF m2(2)])
    have "take DeferredCapacity (take DeferredCapacity (take DeferredCapacity (w @ us) @ xs) @ [r])
        = take DeferredCapacity (w @ us @ xs @ [r])"
      using take_take_append [of DeferredCapacity "take DeferredCapacity (w @ us) @ xs" "[r]"]
        take_take_append [of DeferredCapacity "w @ us" "xs @ [r]"]
      by simp
    then have s3': "snapshot ?m3 True pol (take DeferredCapacity (w @ us @ xs @ [r]))
        (tr @ [EvUpdate a In] @ [EvOnExit a])"
      using s3 by (simp only:)
    have "Run ?n objs In m =
        (case Dequeue DeferredCapacity (m_DeferredState ?m3) of
           (NextQueuedState, q) \<Rightarrow>
             (case (case NextQueuedState of
                      None \<Rightarrow> Some (?m3\<lparr>m_DeferredState := q\<rparr>)
                    | Some h \<Rightarrow>
                        map_option fst (StateTransition ?n objs h (?m3\<lparr>m_DeferredState := q\<rparr>))) of
                None \<Rightarrow> None
              | Some m4 \<Rightarrow> Some (guard_leave m4, Some out)))"
      using pol upd m1(1) m2(1) False ext by (simp add: Run_def Let_def)
    then show ?thesis using s3' False by auto
  qed
qed



lemma Run_step_null:
  assumes s: "snapshot m f pol w tr" and act: "Get pol = Some a"
    and upd: "Update (objs a) In = (map CallEnterState us, out, r)"
    and ext: "r \<noteq> Some a \<Longrightarrow> OnExit (objs a) = map CallEnterState xs"
    and hd: "take DeferredCapacity (w @ us @ (if r = Some a then [] else xs @ [r])) = None # rest"
  shows "\<exists>m'. Run (reentrant (Suc d) objs) objs In m = Some (m', Some out)
      \<and> snapshot m' False (fst (SetState None pol)) rest
           (tr @ [EvUpdate a In] @ (if r = Some a then [] else [EvOnExit a])
              @ map EvDestroy (snd (snd (SetState None pol))))"
proof -
  let ?n = "reentrant (Suc d) objs"
  let ?tr = "tr @ [EvUpdate a In] @ (if r = Some a then [] else [EvOnExit a])"
  from Run_until_dequeue [where objs = objs and a = a and d = d, OF s act upd ext] hd obtain m3 where
    m3: "snapshot m3 True pol (None # rest) ?tr"
    and run: "Run ?n objs In m =
            (case Dequeue DeferredCapacity (m_DeferredState m3) of
               (NextQueuedState, q) \<Rightarrow>
                 (case (case NextQueuedState of
                          None \<Rightarrow> Some (m3\<lparr>m_DeferredState := q\<rparr>)
                        | Some h \<Rightarrow>
                            map_option fst
                              (StateTransition ?n objs h (m3\<lparr>m_DeferredState := q\<rparr>))) of
                    None \<Rightarrow> None
                  | Some m4 \<Rightarrow> Some (guard_leave m4, Some out)))"
    by auto
  let ?m3q = "m3\<lparr>m_DeferredState := snd (Dequeue DeferredCapacity (m_DeferredState m3))\<rparr>"
  note dq = dequeue_snapshot_some [OF m3]
  from transition_null [OF dq(2), of ?n objs] obtain m4 where
    m4: "StateTransition ?n objs None ?m3q = Some (m4, None)"
    "snapshot m4 True (fst (SetState None pol)) rest
       (?tr @ map EvDestroy (snd (snd (SetState None pol))))"
    by blast
  have "Run ?n objs In m = Some (guard_leave m4, Some out)"
    unfolding run using dq(1) m4(1) by (simp add: split_beta)
  then show ?thesis using guard_snapshot(2) [OF m4(2)] by auto
qed

lemma Run_step_enter:
  assumes s: "snapshot m f pol w tr" and act: "Get pol = Some a"
    and upd: "Update (objs a) In = (map CallEnterState us, out, r)"
    and ext: "r \<noteq> Some a \<Longrightarrow> OnExit (objs a) = map CallEnterState xs"
    and hd: "take DeferredCapacity (w @ us @ (if r = Some a then [] else xs @ [r])) = Some b # rest"
    and ent: "OnEnter (objs b) = map CallEnterState es"
  shows "\<exists>m'. Run (reentrant (Suc d) objs) objs In m = Some (m', Some out)
      \<and> snapshot m' False (fst (SetState (Some b) pol)) (take DeferredCapacity (rest @ es))
           (tr @ [EvUpdate a In] @ (if r = Some a then [] else [EvOnExit a])
              @ map EvDestroy (snd (snd (SetState (Some b) pol))) @ [EvOnEnter b])"
proof -
  let ?n = "reentrant (Suc d) objs"
  let ?tr = "tr @ [EvUpdate a In] @ (if r = Some a then [] else [EvOnExit a])"
  from Run_until_dequeue [where objs = objs and a = a and d = d, OF s act upd ext] hd obtain m3 where
    m3: "snapshot m3 True pol (Some b # rest) ?tr"
    and run: "Run ?n objs In m =
            (case Dequeue DeferredCapacity (m_DeferredState m3) of
               (NextQueuedState, q) \<Rightarrow>
                 (case (case NextQueuedState of
                          None \<Rightarrow> Some (m3\<lparr>m_DeferredState := q\<rparr>)
                        | Some h \<Rightarrow>
                            map_option fst
                              (StateTransition ?n objs h (m3\<lparr>m_DeferredState := q\<rparr>))) of
                    None \<Rightarrow> None
                  | Some m4 \<Rightarrow> Some (guard_leave m4, Some out)))"
    by auto
  let ?m3q = "m3\<lparr>m_DeferredState := snd (Dequeue DeferredCapacity (m_DeferredState m3))\<rparr>"
  note dq = dequeue_snapshot_some [OF m3]
  from transition_enter [where objs = objs and b = b and d = d, OF dq(2) ent] obtain m4 where
    m4: "StateTransition ?n objs (Some b) ?m3q = Some (m4, Some b)"
    "snapshot m4 True (fst (SetState (Some b) pol)) (take DeferredCapacity (rest @ es))
       (?tr @ map EvDestroy (snd (snd (SetState (Some b) pol))) @ [EvOnEnter b])"
    by blast
  have "Run ?n objs In m = Some (guard_leave m4, Some out)"
    unfolding run using dq(1) m4(1) by (simp add: split_beta)
  then show ?thesis using guard_snapshot(2) [OF m4(2)] by auto
qed

lemma Run_halted:
  "Get (m_StatePolicy m) = None \<Longrightarrow> Run nested objs In m = Some (guard_leave m, None)"
  by (simp add: Run_def guard_enter_def guard_leave_def)


section \<open>DynamicStateMachine: Run on a halted machine\<close>


lemma Runs_halted:
  "Get (m_StatePolicy m) = None \<Longrightarrow>
     \<exists>m'. Runs nested objs Ins m = Some (m', replicate (length Ins) None)
       \<and> m_DeferredState m' = m_DeferredState m \<and> m_StatePolicy m' = m_StatePolicy m
       \<and> trace m' = trace m"
proof (induction Ins arbitrary: m)
  case Nil
  then show ?case by simp
next
  case (Cons In Ins)
  have pol: "Get (m_StatePolicy (guard_leave m)) = None"
    using Cons.prems by (simp add: guard_leave_def)
  from Cons.IH [OF pol] obtain m' where
    "Runs nested objs Ins (guard_leave m) = Some (m', replicate (length Ins) None)"
    "m_DeferredState m' = m_DeferredState (guard_leave m)"
    "m_StatePolicy m' = m_StatePolicy (guard_leave m)" "trace m' = trace (guard_leave m)"
    by blast
  then show ?case
    using Run_halted [OF Cons.prems, of nested objs In]
    by (simp add: guard_leave_def)
qed

text \<open>
  Claim C8. A call of \<open>Run\<close> on a halted machine returns no output and leaves the
  deferred queue as it was: nothing is applied, nothing is discarded, contents and size
  are unchanged, no callback runs, and the machine is still halted. The same holds for any
  number of such calls in a row.
\<close>

theorem Run_halted_keeps_queue:
  "GetFSM_State m = Halt \<Longrightarrow>
     Run nested objs In m = Some (guard_leave m, None)
     \<and> m_DeferredState (guard_leave m) = m_DeferredState m
     \<and> (\<exists>m'. Runs nested objs Ins m = Some (m', replicate (length Ins) None)
           \<and> m_DeferredState m' = m_DeferredState m
           \<and> Size (m_DeferredState m') = Size (m_DeferredState m)
           \<and> waiting m' = waiting m \<and> trace m' = trace m \<and> GetFSM_State m' = Halt)"
proof -
  assume "GetFSM_State m = Halt"
  then have h: "Get (m_StatePolicy m) = None"
    by (simp add: GetFSM_State_def split: if_splits)
  from Runs_halted [OF h, of nested objs Ins] obtain m' where
    "Runs nested objs Ins m = Some (m', replicate (length Ins) None)"
    "m_DeferredState m' = m_DeferredState m" "m_StatePolicy m' = m_StatePolicy m"
    "trace m' = trace m"
    by blast
  then show ?thesis
    using Run_halted [OF h, of nested objs In] h
    by (simp add: guard_leave_def GetFSM_State_def waiting_def Size_def)
qed

theorem Run_halted_keeps_queue_witness:
  "GetFSM_State (halted_with queue_of_two) = Halt
   \<and> Run (reentrant 1 mock_objs) mock_objs 7 (halted_with queue_of_two)
       = Some (halted_with queue_of_two, None)
   \<and> (\<exists>m'. Runs (reentrant 1 mock_objs) mock_objs [7, 8, 9] (halted_with queue_of_two)
             = Some (m', [None, None, None])
         \<and> waiting m' = [Some 3, Some 4] \<and> Size (m_DeferredState m') = 2)"
proof -
  have h: "GetFSM_State (halted_with queue_of_two) = Halt"
    by (simp add: GetFSM_State_def halted_with_def)
  have w: "waiting (halted_with queue_of_two) = [Some 3, Some 4]"
    by (simp add: waiting_def halted_with_def queue_of_two_def pending_def DeferredCapacity_def upt_rec)
  show ?thesis
    using Run_halted_keeps_queue [OF h, of "reentrant 1 mock_objs" mock_objs 7 "[7, 8, 9]"] h w
    by (auto simp add: guard_leave_def halted_with_def Size_def queue_of_two_def)
qed


section \<open>DynamicStateMachine: a null request halts the machine\<close>


lemma snapshot_self: "machine_ok m \<Longrightarrow> snapshot m (m_InProgress m) (m_StatePolicy m) (waiting m) (trace m)"
  by (simp add: snapshot_def)

lemma entered_append [simp]: "entered (xs @ ys) = entered xs @ entered ys"
  by (induction xs rule: entered.induct) simp_all

lemma exited_append [simp]: "exited (xs @ ys) = exited xs @ exited ys"
  by (induction xs rule: exited.induct) simp_all

lemma entered_destroyed [simp]: "entered (map EvDestroy ds) = []"
  by (induction ds) simp_all

lemma exited_destroyed [simp]: "exited (map EvDestroy ds) = []"
  by (induction ds) simp_all

lemma fresh_queue_ok:
  "ring_ok DeferredCapacity fresh_queue" "pending DeferredCapacity fresh_queue = []"
  by (simp_all add: ring_ok_def fresh_queue_def DeferredCapacity_def pending_def)

text \<open>
  Claim C6. When the request that \<open>Run\<close> pops from the deferred queue is the null
  handle, the policy's stored handle is cleared (\<open>SetState\<close> with the null handle),
  no \<open>OnEnter\<close> is called, and the machine is halted afterwards: \<open>GetFSM_State\<close>
  reports \<open>Halt\<close>, and every later sequence of \<open>Run\<close> calls returns no output and
  leaves the machine halted. The callbacks of the active state may defer requests of their
  own through \<open>EnterState\<close>.
\<close>

theorem null_request_halts:
  assumes "machine_ok m" and "Get (m_StatePolicy m) = Some a"
    and "Update (objs a) In = (map CallEnterState us, out, r)"
    and "r \<noteq> Some a \<Longrightarrow> OnExit (objs a) = map CallEnterState xs"
    and "take DeferredCapacity (waiting m @ us @ (if r = Some a then [] else xs @ [r]))
           = None # rest"
  shows "\<exists>m'. Run (reentrant (Suc d) objs) objs In m = Some (m', Some out)
      \<and> m_StatePolicy m' = fst (SetState None (m_StatePolicy m))
      \<and> Get (m_StatePolicy m') = None
      \<and> entered (trace m') = entered (trace m)
      \<and> trace m' = trace m @ [EvUpdate a In] @ (if r = Some a then [] else [EvOnExit a])
           @ map EvDestroy (snd (snd (SetState None (m_StatePolicy m))))
      \<and> waiting m' = rest
      \<and> GetFSM_State m' = Halt
      \<and> (\<forall>Ins. \<exists>m''. Runs (reentrant (Suc d) objs) objs Ins m'
                = Some (m'', replicate (length Ins) None) \<and> GetFSM_State m'' = Halt)"
proof -
  from Run_step_null [where objs = objs and a = a and d = d,
      OF snapshot_self [OF assms(1)] assms(2) assms(3) assms(4) assms(5)]
  obtain m' where run: "Run (reentrant (Suc d) objs) objs In m = Some (m', Some out)"
    and s: "snapshot m' False (fst (SetState None (m_StatePolicy m))) rest
        (trace m @ [EvUpdate a In] @ (if r = Some a then [] else [EvOnExit a])
           @ map EvDestroy (snd (snd (SetState None (m_StatePolicy m)))))"
    by blast
  have pol: "m_StatePolicy m' = fst (SetState None (m_StatePolicy m))"
    and w: "waiting m' = rest"
    and tr: "trace m' = trace m @ [EvUpdate a In] @ (if r = Some a then [] else [EvOnExit a])
           @ map EvDestroy (snd (snd (SetState None (m_StatePolicy m))))"
    using s by (simp_all add: snapshot_def)
  have g: "Get (m_StatePolicy m') = None" using pol by simp
  have later: "\<exists>m''. Runs (reentrant (Suc d) objs) objs Ins m'
                = Some (m'', replicate (length Ins) None) \<and> GetFSM_State m'' = Halt" for Ins
    using Runs_halted [OF g, of "reentrant (Suc d) objs" objs Ins] g
    by (auto simp add: GetFSM_State_def)
  have e: "entered (trace m') = entered (trace m)"
    unfolding tr by simp
  show ?thesis
    using run pol g e tr w later by (simp add: GetFSM_State_def)
qed

theorem null_request_halts_witness:
  "machine_ok (running_in 2 fresh_queue)
   \<and> Get (m_StatePolicy (running_in 2 fresh_queue)) = Some 2
   \<and> Update (mock_objs 2) 0 = (map CallEnterState [], ''Terminate'', None)
   \<and> OnExit (mock_objs 2) = map CallEnterState []
   \<and> take DeferredCapacity (waiting (running_in 2 fresh_queue) @ [] @ [] @ [None]) = [None]
   \<and> (\<exists>m'. Run (reentrant 1 mock_objs) mock_objs 0 (running_in 2 fresh_queue)
              = Some (m', Some ''Terminate'')
          \<and> GetFSM_State m' = Halt \<and> trace m' = [EvUpdate 2 0, EvOnExit 2]
          \<and> (\<exists>m''. Runs (reentrant 1 mock_objs) mock_objs [5, 20] m' = Some (m'', [None, None])))"
proof -
  have ok: "machine_ok (running_in 2 fresh_queue)"
    by (simp add: machine_ok_def running_in_def fresh_queue_ok)
  have g: "Get (m_StatePolicy (running_in 2 fresh_queue)) = Some 2"
    by (simp add: running_in_def)
  have u: "Update (mock_objs 2) 0 = (map CallEnterState [], ''Terminate'', None)"
    by (simp add: mock_objs_def)
  have x: "None \<noteq> Some (2::nat) \<Longrightarrow> OnExit (mock_objs 2) = map CallEnterState []"
    by (simp add: mock_objs_def)
  have w: "waiting (running_in 2 fresh_queue) = []"
    by (simp add: waiting_def running_in_def fresh_queue_ok)
  have q: "take DeferredCapacity (waiting (running_in 2 fresh_queue) @ []
      @ (if None = Some (2::nat) then [] else [] @ [None])) = None # []"
    by (simp add: w DeferredCapacity_def)
  from null_request_halts [where objs = mock_objs and a = 2 and d = 0, OF ok g u x q]
  obtain m' where
    "Run (reentrant (Suc 0) mock_objs) mock_objs 0 (running_in 2 fresh_queue) = Some (m', Some ''Terminate'')"
    "GetFSM_State m' = Halt"
    "trace m' = trace (running_in 2 fresh_queue) @ [EvUpdate 2 0] @ [EvOnExit 2]
           @ map EvDestroy (snd (snd (SetState None (m_StatePolicy (running_in 2 fresh_queue)))))"
    "\<forall>Ins. \<exists>m''. Runs (reentrant (Suc 0) mock_objs) mock_objs Ins m'
                = Some (m'', replicate (length Ins) None) \<and> GetFSM_State m'' = Halt"
    by auto
  moreover from this(4) obtain m'' where
    "Runs (reentrant (Suc 0) mock_objs) mock_objs [5, 20] m' = Some (m'', replicate (length [5, 20 :: int]) None)"
    by blast
  ultimately show ?thesis
    using ok g u w by (auto simp add: running_in_def mock_objs_def DeferredCapacity_def)
qed


section \<open>DynamicStateMachine: Run with a full deferred queue\<close>


lemma full_queue_facts:
  "ring_ok DeferredCapacity full_queue"
  "pending DeferredCapacity full_queue =
     [Some 3, Some 4, Some 5, Some 6, Some 7, Some 8, Some 9, Some 10, Some 11, Some 12]"
  by (simp_all add: ring_ok_def full_queue_def DeferredCapacity_def pending_def upt_rec)

lemma mock_quiet:
  "OnEnter (mock_objs a) = map CallEnterState []" "OnExit (mock_objs a) = map CallEnterState []"
  by (simp_all add: mock_objs_def)

lemma full_queue_run_example:
  "\<exists>m'. Run (reentrant 1 mock_objs) mock_objs 20 (running_in 1 full_queue) = Some (m', Some ''To B'')
     \<and> snapshot m' False (NonOwningPolicy (Some 3))
          [Some 4, Some 5, Some 6, Some 7, Some 8, Some 9, Some 10, Some 11, Some 12]
          [EvUpdate 1 20, EvOnExit 1, EvOnEnter 3]"
proof -
  have s: "snapshot (running_in 1 full_queue) False (NonOwningPolicy (Some 1))
       [Some 3, Some 4, Some 5, Some 6, Some 7, Some 8, Some 9, Some 10, Some 11, Some 12] []"
    by (simp add: snapshot_def running_in_def machine_ok_def waiting_def full_queue_facts)
  have u: "Update (mock_objs 1) 20 = (map CallEnterState [], ''To B'', Some 2)"
    by (simp add: mock_objs_def)
  have hd: "take DeferredCapacity
     ([Some 3, Some 4, Some 5, Some 6, Some 7, Some 8, Some 9, Some 10, Some 11, Some 12] @ []
        @ (if Some 2 = Some (1::nat) then [] else [] @ [Some 2]))
     = Some 3 # [Some 4, Some 5, Some 6, Some 7, Some 8, Some 9, Some 10, Some 11, Some 12]"
    by (simp add: DeferredCapacity_def)
  show ?thesis
    using Run_step_enter [where objs = mock_objs and a = 1 and d = 0 and b = 3,
        OF s _ u mock_quiet(2) hd mock_quiet(1)]
    by (simp add: DeferredCapacity_def)
qed

text \<open>
  Claim C7 says that after a failed push the machine stays in the old state. In the run
  below the queue is full, \<open>Update\<close> of state 1 asks for state 2, the push is
  dropped, and the call goes on to install state 3, the oldest waiting request.
\<close>

theorem full_queue_run_counterexample:
  "Size (m_DeferredState (running_in 1 full_queue)) = DeferredCapacity
   \<and> Get (m_StatePolicy (running_in 1 full_queue)) = Some 1
   \<and> Update (mock_objs 1) 20 = ([], ''To B'', Some 2)
   \<and> fst (Queue DeferredCapacity (Some 2) full_queue) = False
   \<and> map_option (Get \<circ> m_StatePolicy \<circ> fst)
        (Run (reentrant 1 mock_objs) mock_objs 20 (running_in 1 full_queue)) = Some (Some 3)
   \<and> map_option (trace \<circ> fst)
        (Run (reentrant 1 mock_objs) mock_objs 20 (running_in 1 full_queue))
        = Some [EvUpdate 1 20, EvOnExit 1, EvOnEnter 3]"
proof -
  from full_queue_run_example obtain m' where
    "Run (reentrant 1 mock_objs) mock_objs 20 (running_in 1 full_queue) = Some (m', Some ''To B'')"
    "snapshot m' False (NonOwningPolicy (Some 3))
          [Some 4, Some 5, Some 6, Some 7, Some 8, Some 9, Some 10, Some 11, Some 12]
          [EvUpdate 1 20, EvOnExit 1, EvOnEnter 3]"
    by blast
  then show ?thesis
    by (simp add: snapshot_def Size_def running_in_def full_queue_def DeferredCapacity_def
        mock_objs_def Queue_def)
qed


lemma waiting_length: "length (waiting m) = Size (m_DeferredState m)"
  by (simp add: waiting_def Size_def pending_length)

text \<open>
  \<open>Run\<close> on a machine whose deferred queue is full, for a state that asks to leave.
\<close>

lemma Run_on_full_queue:
  assumes "machine_ok m" and "Size (m_DeferredState m) = DeferredCapacity"
    and "Get (m_StatePolicy m) = Some a"
    and "Update (objs a) In = (map CallEnterState us, out, r)"
    and "r \<noteq> Some a"
    and "OnExit (objs a) = map CallEnterState xs"
    and "\<And>b. hd (waiting m) = Some b \<Longrightarrow> OnEnter (objs b) = map CallEnterState es"
  shows "\<exists>m'. Run (reentrant (Suc d) objs) objs In m = Some (m', Some out)
      \<and> exited (trace m') = exited (trace m) @ [a]
      \<and> m_StatePolicy m' = fst (SetState (hd (waiting m)) (m_StatePolicy m))
      \<and> Get (m_StatePolicy m') = hd (waiting m)
      \<and> waiting m' = take DeferredCapacity
           (tl (waiting m) @ (case hd (waiting m) of None \<Rightarrow> [] | Some b' \<Rightarrow> es))"
proof -
  have len: "length (waiting m) = DeferredCapacity"
    using assms(2) by (simp add: waiting_length)
  have "take (length (waiting m)) (waiting m @ us @ (if r = Some a then [] else xs @ [r]))
      = waiting m"
    by simp
  then have q0: "take DeferredCapacity (waiting m @ us @ (if r = Some a then [] else xs @ [r]))
      = waiting m"
    by (simp only: len)
  obtain h t where w: "waiting m = h # t"
    using len by (cases "waiting m") (simp_all add: DeferredCapacity_def)
  have q: "take DeferredCapacity (waiting m @ us @ (if r = Some a then [] else xs @ [r])) = h # t"
    using q0 w by (simp only:)
  have t: "length t < DeferredCapacity" using len w by simp
  show ?thesis
  proof (cases h)
    case None
    from Run_step_null [where objs = objs and a = a and d = d and xs = xs,
        OF snapshot_self [OF assms(1)] assms(3) assms(4) assms(6) q [unfolded None]]
    obtain m' where "Run (reentrant (Suc d) objs) objs In m = Some (m', Some out)"
      "snapshot m' False (fst (SetState None (m_StatePolicy m))) t
         (trace m @ [EvUpdate a In] @ (if r = Some a then [] else [EvOnExit a])
            @ map EvDestroy (snd (snd (SetState None (m_StatePolicy m)))))"
      by blast
    then show ?thesis
      using w None assms(5) t by (simp add: snapshot_def)
  next
    case (Some b')
    have ent: "OnEnter (objs b') = map CallEnterState es"
      using assms(7) [of b'] w Some by simp
    from Run_step_enter [where objs = objs and a = a and d = d and xs = xs and b = b',
        OF snapshot_self [OF assms(1)] assms(3) assms(4) assms(6) q [unfolded Some] ent]
    obtain m' where "Run (reentrant (Suc d) objs) objs In m = Some (m', Some out)"
      "snapshot m' False (fst (SetState (Some b') (m_StatePolicy m)))
         (take DeferredCapacity (t @ es))
         (trace m @ [EvUpdate a In] @ (if r = Some a then [] else [EvOnExit a])
            @ map EvDestroy (snd (snd (SetState (Some b') (m_StatePolicy m)))) @ [EvOnEnter b'])"
      by blast
    then show ?thesis
      using w Some assms(5) by (simp add: snapshot_def)
  qed
qed


text \<open>
  Claim C7, as amended. In \<open>Run\<close>, when \<open>Update\<close> returns a different handle and the
  deferred queue is full, \<open>OnExit\<close> is invoked on the old state and the push is dropped.
  The same call then pops the oldest waiting request and installs it through the
  ownership policy: afterwards the active handle is that request (the machine is halted
  when it is null), the other waiting requests keep their order, and the dropped request
  is not among them.
\<close>

theorem full_queue_run:
  assumes "machine_ok m" and "Size (m_DeferredState m) = DeferredCapacity"
    and "Get (m_StatePolicy m) = Some a"
    and "Update (objs a) In = (map CallEnterState us, out, r)"
    and "r \<noteq> Some a"
    and "OnExit (objs a) = map CallEnterState xs"
    and "\<And>b. hd (waiting m) = Some b \<Longrightarrow> OnEnter (objs b) = map CallEnterState es"
  shows "\<exists>m'. Run (reentrant (Suc d) objs) objs In m = Some (m', Some out)
      \<and> exited (trace m') = exited (trace m) @ [a]
      \<and> m_StatePolicy m' = fst (SetState (hd (waiting m)) (m_StatePolicy m))
      \<and> Get (m_StatePolicy m') = hd (waiting m)
      \<and> waiting m' = take DeferredCapacity
           (tl (waiting m) @ (case hd (waiting m) of None \<Rightarrow> [] | Some b' \<Rightarrow> es))"
  using assms by (rule Run_on_full_queue)

theorem full_queue_run_witness:
  "machine_ok (running_in 1 full_queue)
   \<and> Size (m_DeferredState (running_in 1 full_queue)) = DeferredCapacity
   \<and> Get (m_StatePolicy (running_in 1 full_queue)) = Some 1
   \<and> Update (mock_objs 1) 20 = (map CallEnterState [], ''To B'', Some 2)
   \<and> Some 2 \<noteq> Some (1::nat)
   \<and> OnExit (mock_objs 1) = map CallEnterState []
   \<and> hd (waiting (running_in 1 full_queue)) = Some 3
   \<and> OnEnter (mock_objs 3) = map CallEnterState []
   \<and> (\<exists>m'. Run (reentrant 1 mock_objs) mock_objs 20 (running_in 1 full_queue)
              = Some (m', Some ''To B'')
          \<and> exited (trace m') = [1]
          \<and> Get (m_StatePolicy m') = Some 3
          \<and> waiting m' = [Some 4, Some 5, Some 6, Some 7, Some 8, Some 9, Some 10, Some 11,
                           Some 12])"
proof -
  have ok: "machine_ok (running_in 1 full_queue)"
    by (simp add: machine_ok_def running_in_def full_queue_facts)
  have sz: "Size (m_DeferredState (running_in 1 full_queue)) = DeferredCapacity"
    by (simp add: Size_def running_in_def full_queue_def DeferredCapacity_def)
  have g: "Get (m_StatePolicy (running_in 1 full_queue)) = Some 1"
    by (simp add: running_in_def)
  have u: "Update (mock_objs 1) 20 = (map CallEnterState [], ''To B'', Some 2)"
    by (simp add: mock_objs_def)
  have w: "waiting (running_in 1 full_queue) =
      [Some 3, Some 4, Some 5, Some 6, Some 7, Some 8, Some 9, Some 10, Some 11, Some 12]"
    by (simp add: waiting_def running_in_def full_queue_facts)
  have ne: "Some 2 \<noteq> Some (1::nat)" by simp
  show ?thesis
    using full_queue_run [where objs = mock_objs and a = 1 and d = 0 and es = "[]",
        OF ok sz g u ne mock_quiet(2) mock_quiet(1)] ok sz g u w mock_quiet [of 1] mock_quiet [of 3]
    by (auto simp add: running_in_def DeferredCapacity_def)
qed


section \<open>DynamicStateMachine: the deferred queue never overflows\<close>


lemma Dequeue_ok: "ring_ok N q \<Longrightarrow> ring_ok N (snd (Dequeue N q))"
proof (cases "pending N q")
  case Nil
  assume "ring_ok N q"
  moreover have "m_Size q = 0" using Nil pending_length [of N q] by simp
  ultimately show ?thesis by (simp add: Dequeue_empty)
next
  case (Cons x xs)
  assume "ring_ok N q"
  then show ?thesis using Cons by (rule Dequeue_some(2))
qed

lemma invoke_ok:
  assumes N: "\<forall>c m m'. machine_ok m \<longrightarrow> nested c m = Some m' \<longrightarrow> machine_ok m'"
  shows "machine_ok m \<Longrightarrow> invoke nested cs m = Some m' \<Longrightarrow> machine_ok m'"
proof (induction cs arbitrary: m)
  case Nil
  then show ?case by simp
next
  case (Cons c cs)
  then show ?case
    using N by (auto split: option.splits)
qed

lemma defer_ok: "machine_ok m \<Longrightarrow> machine_ok (fst (StateTransitionDeferred h m))"
  using defer_snapshot(1) [OF snapshot_self, of m h] by (simp add: snapshot_def)

lemma small_steps_ok:
  "machine_ok m \<Longrightarrow> machine_ok (guard_enter m)"
  "machine_ok m \<Longrightarrow> machine_ok (guard_leave m)"
  "machine_ok m \<Longrightarrow> machine_ok (record_event es m)"
  "machine_ok m \<Longrightarrow> machine_ok (m\<lparr>m_StatePolicy := pol\<rparr>)"
  "machine_ok m \<Longrightarrow>
     machine_ok (m\<lparr>m_DeferredState := snd (Dequeue DeferredCapacity (m_DeferredState m))\<rparr>)"
  by (simp_all add: machine_ok_def guard_enter_def guard_leave_def record_event_def Dequeue_ok)

lemma transition_ok:
  assumes N: "\<forall>c m m'. machine_ok m \<longrightarrow> nested c m = Some m' \<longrightarrow> machine_ok m'"
    and "machine_ok m" and "StateTransition nested objs h m = Some (m', r)"
  shows "machine_ok m'"
proof -
  obtain pol pS dead where sp: "SetState h (m_StatePolicy m) = (pol, pS, dead)"
    by (cases "SetState h (m_StatePolicy m)") auto
  let ?m1 = "record_event (map EvDestroy dead) (m\<lparr>m_StatePolicy := pol\<rparr>)"
  have ok1: "machine_ok ?m1" using assms(2) by (simp add: small_steps_ok)
  show ?thesis
  proof (cases pS)
    case None
    then show ?thesis using assms(3) sp ok1 by (simp add: StateTransition_def)
  next
    case (Some a)
    then have "invoke nested (OnEnter (objs a)) (record_event [EvOnEnter a] ?m1) = Some m'"
      using assms(3) sp by (simp add: StateTransition_def split: option.splits)
    moreover have "machine_ok (record_event [EvOnEnter a] ?m1)"
      using ok1 by (simp add: small_steps_ok)
    ultimately show ?thesis
      using invoke_ok [OF N] by blast
  qed
qed

lemma EnterState_ok:
  assumes N: "\<forall>c m m'. machine_ok m \<longrightarrow> nested c m = Some m' \<longrightarrow> machine_ok m'"
    and "machine_ok m" and "EnterState nested objs h m = Some (m', r)"
  shows "machine_ok m'"
proof (cases "m_InProgress m")
  case True
  then show ?thesis
    using assms(2,3) defer_ok [of m h] by (auto simp add: EnterState_def)
next
  case False
  then obtain m1 where "StateTransition nested objs h (guard_enter m) = Some (m1, r)"
    and "m' = guard_leave m1"
    using assms(3) by (auto simp add: EnterState_def split: option.splits)
  moreover have "machine_ok (guard_enter m)"
    using assms(2) by (simp add: small_steps_ok)
  ultimately show ?thesis
    using transition_ok [OF N] small_steps_ok(2) by blast
qed

lemma EnterStateImmediate_ok:
  assumes N: "\<forall>c m m'. machine_ok m \<longrightarrow> nested c m = Some m' \<longrightarrow> machine_ok m'"
    and "machine_ok m" and "EnterStateImmediate nested objs h m = Some (m', r)"
  shows "machine_ok m'"
proof -
  obtain m1 where "StateTransition nested objs h (guard_enter m) = Some (m1, r)"
    and "m' = guard_leave m1"
    using assms(3) by (auto simp add: EnterStateImmediate_def split: option.splits)
  moreover have "machine_ok (guard_enter m)"
    using assms(2) by (simp add: small_steps_ok)
  ultimately show ?thesis
    using transition_ok [OF N] small_steps_ok(2) by blast
qed

lemma Run_ok:
  assumes N: "\<forall>c m m'. machine_ok m \<longrightarrow> nested c m = Some m' \<longrightarrow> machine_ok m'"
    and ok: "machine_ok m" and run: "Run nested objs In m = Some (m', out)"
  shows "machine_ok m'"
proof (cases "Get (m_StatePolicy m)")
  case None
  then have "m' = guard_leave m" using run by (simp add: Run_halted)
  then show ?thesis using ok by (simp add: small_steps_ok)
next
  case (Some a)
  obtain script val nxt where u: "Update (objs a) In = (script, val, nxt)"
    by (cases "Update (objs a) In") auto
  have g: "Get (m_StatePolicy (guard_enter m)) = Some a"
    using Some by (simp add: guard_enter_def)
  let ?m0 = "record_event [EvUpdate a In] (guard_enter m)"
  have ok0: "machine_ok ?m0" using ok by (simp add: small_steps_ok)
  from run g u obtain m1 where
    m1: "invoke nested script ?m0 = Some m1"
    by (auto simp add: Run_def Let_def split: option.splits)
  have ok1: "machine_ok m1"
    using invoke_ok [OF N ok0 m1] .
  let ?stage = "if nxt \<noteq> Some a
                then (case invoke nested (OnExit (objs a)) (record_event [EvOnExit a] m1) of
                        None \<Rightarrow> None
                      | Some m2 \<Rightarrow> Some (fst (StateTransitionDeferred nxt m2)))
                else Some m1"
  from run g u m1 obtain m3 where m3: "?stage = Some m3"
    by (auto simp add: Run_def Let_def split: option.splits if_splits)
  have ok3: "machine_ok m3"
  proof (cases "nxt = Some a")
    case True
    then show ?thesis using m3 ok1 by simp
  next
    case False
    then obtain m2 where m2: "invoke nested (OnExit (objs a)) (record_event [EvOnExit a] m1) = Some m2"
      and e: "m3 = fst (StateTransitionDeferred nxt m2)"
      using m3 by (auto split: option.splits)
    have "machine_ok (record_event [EvOnExit a] m1)" using ok1 by (simp add: small_steps_ok)
    then have "machine_ok m2" using invoke_ok [OF N _ m2] by blast
    then show ?thesis using e by (simp add: defer_ok)
  qed
  let ?q = "Dequeue DeferredCapacity (m_DeferredState m3)"
  let ?m3q = "m3\<lparr>m_DeferredState := snd ?q\<rparr>"
  have okq: "machine_ok ?m3q" using ok3 by (simp add: small_steps_ok)
  from run g u m1 m3 obtain m4 where
    m4: "(case fst ?q of None \<Rightarrow> Some ?m3q
          | Some h \<Rightarrow> map_option fst (StateTransition nested objs h ?m3q)) = Some m4"
    and e: "m' = guard_leave m4"
    by (auto simp add: Run_def Let_def split_beta split: option.splits)
  have "machine_ok m4"
  proof (cases "fst ?q")
    case None
    then show ?thesis using m4 okq by simp
  next
    case (Some h)
    then obtain r where "StateTransition nested objs h ?m3q = Some (m4, r)"
      using m4 by auto
    then show ?thesis using transition_ok [OF N okq] by blast
  qed
  then show ?thesis using e by (simp add: small_steps_ok)
qed

lemma reentrant_ok:
  "machine_ok m \<Longrightarrow> reentrant d objs c m = Some m' \<Longrightarrow> machine_ok m'"
proof (induction d arbitrary: c m m')
  case 0
  then show ?case by (simp add: reentrant.simps)
next
  case (Suc d)
  have N: "\<forall>c m m'. machine_ok m \<longrightarrow> reentrant d objs c m = Some m' \<longrightarrow> machine_ok m'"
    using Suc.IH by blast
  show ?case
  proof (cases c)
    case (CallRun In)
    then obtain out where "Run (reentrant d objs) objs In m = Some (m', out)"
      using Suc.prems(2) by (auto simp add: reentrant_CallRun)
    then show ?thesis using Run_ok [OF N Suc.prems(1)] by blast
  next
    case (CallEnterState h)
    then obtain r where "EnterState (reentrant d objs) objs h m = Some (m', r)"
      using Suc.prems(2) by (auto simp add: reentrant_CallEnterState)
    then show ?thesis using EnterState_ok [OF N Suc.prems(1)] by blast
  next
    case (CallEnterStateImmediate h)
    then obtain r where "EnterStateImmediate (reentrant d objs) objs h m = Some (m', r)"
      using Suc.prems(2) by (auto simp add: reentrant_CallEnterStateImmediate)
    then show ?thesis using EnterStateImmediate_ok [OF N Suc.prems(1)] by blast
  qed
qed


text \<open>
  Claim C5. On a machine whose deferred queue holds \<open>DeferredCapacity\<close> requests, a
  further request is dropped: \<open>Queue\<close> returns \<open>false\<close> and leaves the buffer as it
  is, so does \<open>StateTransitionDeferred\<close>; \<open>EnterState\<close> called while in progress
  returns the unchanged active handle and an unchanged machine; and \<open>Run\<close>, whose push
  is dropped in the same way, still returns its output and only removes the oldest
  request. Whatever is called on a well-formed machine, at any depth of nesting, the queue
  never holds more than \<open>DeferredCapacity\<close> requests afterwards.
\<close>

theorem queue_overflow_drop:
  assumes "machine_ok m" and "Size (m_DeferredState m) = DeferredCapacity"
  shows "Queue DeferredCapacity h (m_DeferredState m) = (False, m_DeferredState m)
     \<and> StateTransitionDeferred h m = (m, Get (m_StatePolicy m))
     \<and> EnterState nested objs h (guard_enter m) = Some (guard_enter m, Get (m_StatePolicy m))
     \<and> (Get (m_StatePolicy m) = Some a \<and> Update (objs a) In = (map CallEnterState us, out, r)
          \<and> r \<noteq> Some a \<and> OnExit (objs a) = map CallEnterState xs
          \<and> (\<forall>b. hd (waiting m) = Some b \<longrightarrow> OnEnter (objs b) = [])
        \<longrightarrow> (\<exists>m'. Run (reentrant (Suc d) objs) objs In m = Some (m', Some out)
                \<and> waiting m' = tl (waiting m)))
     \<and> (\<forall>c m'. reentrant d objs c m = Some m'
           \<longrightarrow> Size (m_DeferredState m') \<le> DeferredCapacity)"
proof -
  have full: "m_Size (m_DeferredState m) = DeferredCapacity"
    using assms(2) by (simp add: Size_def)
  have q: "Queue DeferredCapacity h (m_DeferredState m) = (False, m_DeferredState m)"
    using full by (rule Queue_full)
  have d: "StateTransitionDeferred h m = (m, Get (m_StatePolicy m))"
    by (simp add: StateTransitionDeferred_def q)
  have "Queue DeferredCapacity h (m_DeferredState (guard_enter m))
      = (False, m_DeferredState (guard_enter m))"
    using full by (simp add: Queue_full guard_enter_def)
  then have e: "EnterState nested objs h (guard_enter m)
      = Some (guard_enter m, Get (m_StatePolicy m))"
    by (simp add: EnterState_def StateTransitionDeferred_def guard_enter_def)
  have r: "\<exists>m'. Run (reentrant (Suc d) objs) objs In m = Some (m', Some out)
                \<and> waiting m' = tl (waiting m)"
    if "Get (m_StatePolicy m) = Some a" "Update (objs a) In = (map CallEnterState us, out, r)"
      "r \<noteq> Some a" "OnExit (objs a) = map CallEnterState xs"
      "\<forall>b. hd (waiting m) = Some b \<longrightarrow> OnEnter (objs b) = []"
  proof -
    have ent: "\<And>b. hd (waiting m) = Some b \<Longrightarrow> OnEnter (objs b) = map CallEnterState []"
      using that(5) by simp
    have "length (tl (waiting m)) \<le> DeferredCapacity"
      using assms(2) by (simp add: waiting_length)
    then show ?thesis
      using Run_on_full_queue [where objs = objs and a = a and d = d and es = "[]",
          OF assms(1) assms(2) that(1) that(2) that(3) that(4) ent]
      by (auto split: option.splits)
  qed
  have i: "Size (m_DeferredState m') \<le> DeferredCapacity"
    if "reentrant d objs c m = Some m'" for c m'
    using reentrant_ok [OF assms(1) that] by (simp add: machine_ok_def ring_ok_def Size_def)
  show ?thesis using q d e r i by blast
qed

theorem queue_overflow_drop_witness:
  "machine_ok (running_in 1 full_queue)
   \<and> Size (m_DeferredState (running_in 1 full_queue)) = DeferredCapacity
   \<and> Queue DeferredCapacity (Some 2) full_queue = (False, full_queue)
   \<and> EnterState (reentrant 0 mock_objs) mock_objs (Some 2) (guard_enter (running_in 1 full_queue))
        = Some (guard_enter (running_in 1 full_queue), Some 1)
   \<and> Get (m_StatePolicy (running_in 1 full_queue)) = Some 1
   \<and> Update (mock_objs 1) 20 = (map CallEnterState [], ''To B'', Some 2)
   \<and> OnExit (mock_objs 1) = map CallEnterState []
   \<and> (\<exists>m'. Run (reentrant 1 mock_objs) mock_objs 20 (running_in 1 full_queue)
              = Some (m', Some ''To B'')
          \<and> waiting m' = [Some 4, Some 5, Some 6, Some 7, Some 8, Some 9, Some 10, Some 11,
                           Some 12]
          \<and> reentrant (Suc 1) mock_objs (CallRun 20) (running_in 1 full_queue) = Some m'
          \<and> Size (m_DeferredState m') \<le> DeferredCapacity)"
proof -
  have ok: "machine_ok (running_in 1 full_queue)"
    by (simp add: machine_ok_def running_in_def full_queue_facts)
  have sz: "Size (m_DeferredState (running_in 1 full_queue)) = DeferredCapacity"
    by (simp add: Size_def running_in_def full_queue_def DeferredCapacity_def)
  have g: "Get (m_StatePolicy (running_in 1 full_queue)) = Some 1"
    by (simp add: running_in_def)
  have u: "Update (mock_objs 1) 20 = (map CallEnterState [], ''To B'', Some 2)"
    by (simp add: mock_objs_def)
  have w: "waiting (running_in 1 full_queue) =
      [Some 3, Some 4, Some 5, Some 6, Some 7, Some 8, Some 9, Some 10, Some 11, Some 12]"
    by (simp add: waiting_def running_in_def full_queue_facts)
  have q: "m_DeferredState (running_in 1 full_queue) = full_queue"
    by (simp add: running_in_def)
  note t = queue_overflow_drop [where objs = mock_objs and a = 1 and d = 0 and h = "Some 2"
      and us = "[]" and xs = "[]" and out = "''To B''" and r = "Some 2" and In = 20
      and nested = "reentrant 0 mock_objs", OF ok sz]
  have "\<exists>m'. Run (reentrant (Suc 0) mock_objs) mock_objs 20 (running_in 1 full_queue)
              = Some (m', Some ''To B'')
          \<and> waiting m' = tl (waiting (running_in 1 full_queue))"
    using t g u mock_quiet [of 1] mock_quiet by simp
  then obtain m' where
    m': "Run (reentrant (Suc 0) mock_objs) mock_objs 20 (running_in 1 full_queue)
              = Some (m', Some ''To B'')"
    "waiting m' = tl (waiting (running_in 1 full_queue))"
    by blast
  have c: "reentrant (Suc 1) mock_objs (CallRun 20) (running_in 1 full_queue) = Some m'"
    using m'(1) by (simp add: reentrant_CallRun)
  have le: "Size (m_DeferredState m') \<le> DeferredCapacity"
    using queue_overflow_drop [where objs = mock_objs and d = "Suc 1", OF ok sz] c by blast
  show ?thesis
    using t m' c le ok sz g u w q mock_quiet [of 1] by auto
qed


section \<open>DynamicStateMachine: deferred requests are applied first in, first out\<close>


lemma snapshot_length: "snapshot m f pol w tr \<Longrightarrow> length w \<le> DeferredCapacity"
  using pending_length [of DeferredCapacity "m_DeferredState m"]
  by (auto simp add: snapshot_def machine_ok_def ring_ok_def waiting_def)

text \<open>
  Draining: while the states that become active stay where they are and call nothing, each
  call of \<open>Run\<close> applies exactly the oldest waiting request.
\<close>

lemma Runs_drain:
  "snapshot m f pol (map Some bs) tr \<Longrightarrow> Get pol = Some c \<Longrightarrow> length Ins \<le> length bs \<Longrightarrow>
   \<forall>b\<in>set (c # bs). OnEnter (objs b) = []
       \<and> (\<forall>i. fst (Update (objs b) i) = [] \<and> snd (snd (Update (objs b) i)) = Some b) \<Longrightarrow>
   \<exists>m' outs. Runs (reentrant (Suc d) objs) objs Ins m = Some (m', outs)
     \<and> length outs = length Ins
     \<and> Get (m_StatePolicy m') = Some ((c # bs) ! length Ins)
     \<and> waiting m' = map Some (drop (length Ins) bs)
     \<and> entered (trace m') = entered tr @ take (length Ins) bs"
proof (induction Ins arbitrary: m f pol bs c tr)
  case Nil
  then show ?case by (simp add: snapshot_def)
next
  case (Cons In Ins)
  then obtain b bs' where bs: "bs = b # bs'" by (cases bs) auto
  have "fst (Update (objs c) In) = []" "snd (snd (Update (objs c) In)) = Some c"
    using Cons.prems(4) by simp_all
  then obtain out where upd: "Update (objs c) In = (map CallEnterState [], out, Some c)"
    by (cases "Update (objs c) In") auto
  have ent: "OnEnter (objs b) = map CallEnterState []"
    using Cons.prems(4) bs by simp
  have len: "length (map Some bs) \<le> DeferredCapacity"
    by (rule snapshot_length [OF Cons.prems(1)])
  have hd: "take DeferredCapacity (map Some bs @ [] @ (if Some c = Some c then [] else [] @ [Some c]))
      = Some b # map Some bs'"
    using len bs by simp
  from Run_step_enter [where objs = objs and a = c and d = d and b = b and xs = "[]",
      OF Cons.prems(1) Cons.prems(2) upd _ hd ent]
  obtain m1 where run: "Run (reentrant (Suc d) objs) objs In m = Some (m1, Some out)"
    and s1: "snapshot m1 False (fst (SetState (Some b) pol)) (take DeferredCapacity (map Some bs' @ []))
       (tr @ [EvUpdate c In] @ (if Some c = Some c then [] else [EvOnExit c])
          @ map EvDestroy (snd (snd (SetState (Some b) pol))) @ [EvOnEnter b])"
    by blast
  let ?tr1 = "tr @ [EvUpdate c In] @ map EvDestroy (snd (snd (SetState (Some b) pol))) @ [EvOnEnter b]"
  have s1': "snapshot m1 False (fst (SetState (Some b) pol)) (map Some bs') ?tr1"
    using s1 len bs by simp
  have q: "\<forall>b\<in>set (b # bs'). OnEnter (objs b) = []
       \<and> (\<forall>i. fst (Update (objs b) i) = [] \<and> snd (snd (Update (objs b) i)) = Some b)"
    using Cons.prems(4) bs by simp
  have l: "length Ins \<le> length bs'" using Cons.prems(3) bs by simp
  from Cons.IH [OF s1' _ l q]
  obtain m' outs where
    "Runs (reentrant (Suc d) objs) objs Ins m1 = Some (m', outs)" "length outs = length Ins"
    "Get (m_StatePolicy m') = Some ((b # bs') ! length Ins)"
    "waiting m' = map Some (drop (length Ins) bs')"
    "entered (trace m') = entered ?tr1 @ take (length Ins) bs'"
    by auto
  then show ?case
    using run bs by simp
qed


text \<open>
  Claim C3. Let the deferred queue hold the requests \<open>ws\<close>; let the \<open>Update\<close> of the
  active state submit the requests \<open>us\<close> through \<open>EnterState\<close> and return a different
  handle \<open>r\<close>, and let its \<open>OnExit\<close> submit \<open>xs\<close>. The requests in submission order
  are \<open>ws @ us @ xs @ [r]\<close>, of which the queue keeps the first \<open>DeferredCapacity\<close>.
  Then this call of \<open>Run\<close> and the \<open>n\<close> calls that follow it apply exactly the first
  \<open>n + 1\<close> of them, one per call and in that order, and the others are still waiting in
  their order. (The requested states are states that stay where they are and call nothing.)
\<close>

theorem deferred_requests_fifo:
  assumes "machine_ok m" and "Get (m_StatePolicy m) = Some a"
    and "waiting m = map Some ws"
    and "Update (objs a) In = (map CallEnterState (map Some us), out, Some r)"
    and "r \<noteq> a"
    and "OnExit (objs a) = map CallEnterState (map Some xs)"
    and "\<forall>b\<in>set (ws @ us @ xs @ [r]). OnEnter (objs b) = []
           \<and> (\<forall>i. fst (Update (objs b) i) = [] \<and> snd (snd (Update (objs b) i)) = Some b)"
    and "length Ins < length (take DeferredCapacity (ws @ us @ xs @ [r]))"
  shows "\<exists>m' outs. Runs (reentrant (Suc d) objs) objs (In # Ins) m = Some (m', outs)
      \<and> length outs = Suc (length Ins)
      \<and> Get (m_StatePolicy m') = Some (take DeferredCapacity (ws @ us @ xs @ [r]) ! length Ins)
      \<and> waiting m' = map Some (drop (Suc (length Ins)) (take DeferredCapacity (ws @ us @ xs @ [r])))
      \<and> entered (trace m')
          = entered (trace m) @ take (Suc (length Ins)) (take DeferredCapacity (ws @ us @ xs @ [r]))"
proof -
  define S where "S = ws @ us @ xs @ [r]"
  define L where "L = take DeferredCapacity S"
  have quiet: "\<forall>b\<in>set S. OnEnter (objs b) = []
           \<and> (\<forall>i. fst (Update (objs b) i) = [] \<and> snd (snd (Update (objs b) i)) = Some b)"
    using assms(7) unfolding S_def .
  have short: "length Ins < length L"
    using assms(8) unfolding L_def S_def .
  obtain b L' where L: "L = b # L'"
    using short by (cases L) auto
  have s: "snapshot m (m_InProgress m) (m_StatePolicy m) (map Some ws) (trace m)"
    using snapshot_self [OF assms(1)] assms(3) by simp
  have ext: "Some r \<noteq> Some a \<Longrightarrow> OnExit (objs a) = map CallEnterState (map Some xs)"
    using assms(6) by simp
  have e1: "(if Some r = Some a then [] else map Some xs @ [Some r]) = map Some xs @ [Some r]"
    using assms(5) by simp
  have "map Some ws @ map Some us @ map Some xs @ [Some r] = map Some S"
    by (simp add: S_def)
  then have e2: "take DeferredCapacity (map Some ws @ map Some us @ map Some xs @ [Some r])
      = map Some L"
    by (simp only: take_map L_def)
  have e3: "map Some L = Some b # map Some L'"
    unfolding L by simp
  have hd: "take DeferredCapacity (map Some ws @ map Some us
        @ (if Some r = Some a then [] else map Some xs @ [Some r])) = Some b # map Some L'"
    by (simp only: e1 e2 e3)
  have inL: "set L \<subseteq> set S" unfolding L_def by (rule set_take_subset)
  then have "b \<in> set S" using L by simp
  then have ent: "OnEnter (objs b) = map CallEnterState []" using quiet by simp
  from Run_step_enter [where objs = objs and a = a and d = d and b = b,
      OF s assms(2) assms(4) ext hd ent]
  obtain m1 where run: "Run (reentrant (Suc d) objs) objs In m = Some (m1, Some out)"
    and s1: "snapshot m1 False (fst (SetState (Some b) (m_StatePolicy m)))
       (take DeferredCapacity (map Some L' @ []))
       (trace m @ [EvUpdate a In] @ (if Some r = Some a then [] else [EvOnExit a])
          @ map EvDestroy (snd (snd (SetState (Some b) (m_StatePolicy m)))) @ [EvOnEnter b])"
    by blast
  let ?tr1 = "trace m @ [EvUpdate a In] @ [EvOnExit a]
          @ map EvDestroy (snd (snd (SetState (Some b) (m_StatePolicy m)))) @ [EvOnEnter b]"
  have "length L \<le> DeferredCapacity" unfolding L_def by simp
  then have lenL': "length L' < DeferredCapacity" unfolding L by simp
  have s1': "snapshot m1 False (fst (SetState (Some b) (m_StatePolicy m))) (map Some L') ?tr1"
    using s1 lenL' assms(5) by simp
  have q: "\<forall>b\<in>set (b # L'). OnEnter (objs b) = []
       \<and> (\<forall>i. fst (Update (objs b) i) = [] \<and> snd (snd (Update (objs b) i)) = Some b)"
    using quiet inL unfolding L by blast
  have l: "length Ins \<le> length L'" using short unfolding L by simp
  from Runs_drain [where objs = objs and d = d, OF s1' _ l q]
  obtain m' outs where
    "Runs (reentrant (Suc d) objs) objs Ins m1 = Some (m', outs)" "length outs = length Ins"
    "Get (m_StatePolicy m') = Some ((b # L') ! length Ins)"
    "waiting m' = map Some (drop (length Ins) L')"
    "entered (trace m') = entered ?tr1 @ take (length Ins) L'"
    by auto
  then have "\<exists>m' outs. Runs (reentrant (Suc d) objs) objs (In # Ins) m = Some (m', outs)
      \<and> length outs = Suc (length Ins)
      \<and> Get (m_StatePolicy m') = Some (L ! length Ins)
      \<and> waiting m' = map Some (drop (Suc (length Ins)) L)
      \<and> entered (trace m') = entered (trace m) @ take (Suc (length Ins)) L"
    unfolding L using run by simp
  then show ?thesis unfolding L_def S_def .
qed


lemma queue_of_two_facts:
  "ring_ok DeferredCapacity queue_of_two"
  "pending DeferredCapacity queue_of_two = [Some 3, Some 4]"
  by (simp_all add: ring_ok_def queue_of_two_def DeferredCapacity_def pending_def upt_rec)

theorem deferred_requests_fifo_witness:
  "machine_ok (running_in 5 queue_of_two)
   \<and> Get (m_StatePolicy (running_in 5 queue_of_two)) = Some 5
   \<and> waiting (running_in 5 queue_of_two) = map Some [3, 4]
   \<and> Update (nesting_objs 5) 0 = (map CallEnterState (map Some [6, 7]), ''E'', Some 8)
   \<and> (8::nat) \<noteq> 5
   \<and> OnExit (nesting_objs 5) = map CallEnterState (map Some [])
   \<and> map (\<lambda>b. OnEnter (nesting_objs b)) [3, 4, 6, 7, 8] = [[], [], [], [], []]
   \<and> (\<forall>i. map (\<lambda>b. fst (Update (nesting_objs b) i)) [3, 4, 6, 7, 8] = [[], [], [], [], []])
   \<and> (\<forall>i. map (\<lambda>b. snd (snd (Update (nesting_objs b) i))) [3, 4, 6, 7, 8]
           = map Some [3, 4, 6, 7, 8])
   \<and> length [0, 0 :: int] < length (take DeferredCapacity ([3, 4] @ [6, 7] @ [] @ [8 :: nat]))
   \<and> (\<exists>m' outs. Runs (reentrant 1 nesting_objs) nesting_objs [0, 0, 0] (running_in 5 queue_of_two)
                   = Some (m', outs)
          \<and> Get (m_StatePolicy m') = Some 6
          \<and> waiting m' = [Some 7, Some 8]
          \<and> entered (trace m') = [3, 4, 6])"
proof -
  have ok: "machine_ok (running_in 5 queue_of_two)"
    by (simp add: machine_ok_def running_in_def queue_of_two_facts)
  have g: "Get (m_StatePolicy (running_in 5 queue_of_two)) = Some 5"
    by (simp add: running_in_def)
  have w: "waiting (running_in 5 queue_of_two) = map Some [3, 4]"
    by (simp add: waiting_def running_in_def queue_of_two_facts)
  have u: "Update (nesting_objs 5) 0 = (map CallEnterState (map Some [6, 7]), ''E'', Some 8)"
    by (simp add: nesting_objs_def)
  have ne: "(8::nat) \<noteq> 5" by simp
  have x: "OnExit (nesting_objs 5) = map CallEnterState (map Some [])"
    by (simp add: nesting_objs_def)
  have q: "\<forall>b\<in>set ([3, 4] @ [6, 7] @ [] @ [8]). OnEnter (nesting_objs b) = []
         \<and> (\<forall>i. fst (Update (nesting_objs b) i) = []
               \<and> snd (snd (Update (nesting_objs b) i)) = Some b)"
    by (simp add: nesting_objs_def)
  have l: "length [0, 0 :: int] < length (take DeferredCapacity ([3, 4] @ [6, 7] @ [] @ [8 :: nat]))"
    by (simp add: DeferredCapacity_def)
  have tr: "trace (running_in 5 queue_of_two) = []"
    by (simp add: running_in_def)
  from deferred_requests_fifo [where objs = nesting_objs and d = 0, OF ok g w u ne x q l]
  have "\<exists>m' outs. Runs (reentrant 1 nesting_objs) nesting_objs [0, 0, 0] (running_in 5 queue_of_two)
                   = Some (m', outs)
          \<and> Get (m_StatePolicy m') = Some 6
          \<and> waiting m' = [Some 7, Some 8]
          \<and> entered (trace m') = [3, 4, 6]"
    by (simp add: DeferredCapacity_def tr del: Runs.simps) blast
  then show ?thesis
    using ok g w u x l by (simp add: nesting_objs_def)
qed


section \<open>DynamicStateMachine: which callbacks a transition calls\<close>


lemma EnterStateImmediate_applies:
  assumes "snapshot m f pol w tr" and "OnEnter (objs b) = map CallEnterState es"
  shows "\<exists>m'. EnterStateImmediate (reentrant (Suc d) objs) objs (Some b) m = Some (m', Some b)
      \<and> snapshot m' False (fst (SetState (Some b) pol)) (take DeferredCapacity (w @ es))
            (tr @ map EvDestroy (snd (snd (SetState (Some b) pol))) @ [EvOnEnter b])"
proof -
  from transition_enter [where objs = objs and b = b and d = d,
      OF guard_snapshot(1) [OF assms(1)] assms(2)]
  obtain m1 where
    "StateTransition (reentrant (Suc d) objs) objs (Some b) (guard_enter m) = Some (m1, Some b)"
    "snapshot m1 True (fst (SetState (Some b) pol)) (take DeferredCapacity (w @ es))
            (tr @ map EvDestroy (snd (snd (SetState (Some b) pol))) @ [EvOnEnter b])"
    by blast
  then show ?thesis
    using guard_snapshot(2) [of m1] by (simp add: EnterStateImmediate_def)
qed

lemma EnterState_applies:
  assumes "snapshot m False pol w tr" and "OnEnter (objs b) = map CallEnterState es"
  shows "\<exists>m'. EnterState (reentrant (Suc d) objs) objs (Some b) m = Some (m', Some b)
      \<and> snapshot m' False (fst (SetState (Some b) pol)) (take DeferredCapacity (w @ es))
            (tr @ map EvDestroy (snd (snd (SetState (Some b) pol))) @ [EvOnEnter b])"
proof -
  have "EnterState (reentrant (Suc d) objs) objs (Some b) m
      = EnterStateImmediate (reentrant (Suc d) objs) objs (Some b) m"
    using assms(1) by (simp add: EnterState_def EnterStateImmediate_def snapshot_def)
  then show ?thesis
    using EnterStateImmediate_applies [where objs = objs and b = b and d = d, OF assms] by simp
qed


lemma fresh_running:
  "snapshot (running_in a fresh_queue) False (NonOwningPolicy (Some a)) [] []"
  by (simp add: snapshot_def running_in_def machine_ok_def waiting_def fresh_queue_ok)







section \<open>DynamicStateMachine: asking for the state that is already active\<close>






section \<open>DynamicStateMachine: the in-progress flag under nested calls\<close>


text \<open>
  Claim C1 asks that the in-progress flag stay true for the whole of a \<open>Run\<close> call and
  be reset on exit to the value it had before. The destructor of \<open>InProgressGuard\<close>
  stores \<open>false\<close> instead. In the run below, \<open>Run\<close> has set the flag and the
  \<open>Update\<close> of state 1 calls \<open>EnterStateImmediate(2)\<close>: that nested call returns with
  the flag false. The two \<open>EnterState\<close> calls that \<open>Update\<close> makes next therefore find
  the machine not in progress and are applied on the spot, where they should have been
  deferred: the log shows three \<open>OnEnter\<close> calls inside one \<open>Run\<close>, state 4 ends up
  active and nothing is waiting. A \<open>Run\<close> entered with the flag already true also
  returns with the flag false.
\<close>

theorem guard_resets_flag_early:
  "m_InProgress (guard_enter (running_in 1 fresh_queue)) = True
   \<and> map_option (m_InProgress \<circ> fst)
        (EnterStateImmediate (reentrant 1 nesting_objs) nesting_objs (Some 2)
           (guard_enter (running_in 1 fresh_queue))) = Some False
   \<and> map_option (trace \<circ> fst)
        (Run (reentrant 2 nesting_objs) nesting_objs 0 (running_in 1 fresh_queue))
        = Some [EvUpdate 1 0, EvOnEnter 2, EvOnEnter 3, EvOnEnter 4]
   \<and> map_option (Get \<circ> m_StatePolicy \<circ> fst)
        (Run (reentrant 2 nesting_objs) nesting_objs 0 (running_in 1 fresh_queue))
        = Some (Some 4)
   \<and> map_option (waiting \<circ> fst)
        (Run (reentrant 2 nesting_objs) nesting_objs 0 (running_in 1 fresh_queue)) = Some []
   \<and> map_option (m_InProgress \<circ> fst)
        (Run (reentrant 2 nesting_objs) nesting_objs 0 (guard_enter (halted_with fresh_queue)))
        = Some False"
proof -
  let ?o = nesting_objs
  let ?n = "reentrant (Suc (Suc 0)) ?o"
  have two: "reentrant 2 ?o = ?n" by (simp add: numeral_2_eq_2)
  have quiet: "\<And>b. OnEnter (?o b) = map CallEnterState []"
    by (simp add: nesting_objs_def)
  have s0: "snapshot (guard_enter (running_in 1 fresh_queue)) True (NonOwningPolicy (Some 1)) [] []"
    by (rule guard_snapshot(1) [OF fresh_running])
  from EnterStateImmediate_applies [where objs = ?o and d = 0 and b = 2, OF s0 quiet]
  have B: "map_option (m_InProgress \<circ> fst)
        (EnterStateImmediate (reentrant 1 ?o) ?o (Some 2) (guard_enter (running_in 1 fresh_queue)))
        = Some False"
    by (auto simp add: snapshot_def)
  let ?m0 = "record_event [EvUpdate 1 0] (guard_enter (running_in 1 fresh_queue))"
  have sU: "snapshot ?m0 True (NonOwningPolicy (Some 1)) [] ([] @ [EvUpdate 1 0])"
    by (rule record_snapshot [OF s0])
  from EnterStateImmediate_applies [where objs = ?o and d = 0 and b = 2, OF sU quiet]
  obtain m1 where c1: "?n (CallEnterStateImmediate (Some 2)) ?m0 = Some m1"
    and s1: "snapshot m1 False (NonOwningPolicy (Some 2)) [] [EvUpdate 1 0, EvOnEnter 2]"
    by (auto simp add: reentrant_CallEnterStateImmediate DeferredCapacity_def)
  from EnterState_applies [where objs = ?o and d = 0 and b = 3, OF s1 quiet]
  obtain m2 where c2: "?n (CallEnterState (Some 3)) m1 = Some m2"
    and s2: "snapshot m2 False (NonOwningPolicy (Some 3)) []
        [EvUpdate 1 0, EvOnEnter 2, EvOnEnter 3]"
    by (auto simp add: reentrant_CallEnterState DeferredCapacity_def)
  from EnterState_applies [where objs = ?o and d = 0 and b = 4, OF s2 quiet]
  obtain m3 where c3: "?n (CallEnterState (Some 4)) m2 = Some m3"
    and s3: "snapshot m3 False (NonOwningPolicy (Some 4)) []
        [EvUpdate 1 0, EvOnEnter 2, EvOnEnter 3, EvOnEnter 4]"
    by (auto simp add: reentrant_CallEnterState DeferredCapacity_def)
  have u: "Update (?o 1) 0 = ([CallEnterStateImmediate (Some 2), CallEnterState (Some 3),
      CallEnterState (Some 4)], ''A'', Some 1)"
    by (simp add: nesting_objs_def)
  have g: "Get (m_StatePolicy (guard_enter (running_in 1 fresh_queue))) = Some 1"
    using s0 by (simp add: snapshot_def)
  have run: "Run ?n ?o 0 (running_in 1 fresh_queue) = Some (guard_leave m3, Some ''A'')"
    using g u c1 c2 c3 dequeue_snapshot_empty [OF s3]
    by (simp add: Run_def Let_def)
  have CDE: "map_option (trace \<circ> fst) (Run ?n ?o 0 (running_in 1 fresh_queue))
        = Some [EvUpdate 1 0, EvOnEnter 2, EvOnEnter 3, EvOnEnter 4]
      \<and> map_option (Get \<circ> m_StatePolicy \<circ> fst) (Run ?n ?o 0 (running_in 1 fresh_queue))
        = Some (Some 4)
      \<and> map_option (waiting \<circ> fst) (Run ?n ?o 0 (running_in 1 fresh_queue)) = Some []"
    unfolding run using guard_snapshot(2) [OF s3] by (simp add: snapshot_def)
  have "Get (m_StatePolicy (guard_enter (halted_with fresh_queue))) = None"
    by (simp add: guard_enter_def halted_with_def)
  then have F: "map_option (m_InProgress \<circ> fst)
        (Run ?n ?o 0 (guard_enter (halted_with fresh_queue))) = Some False"
    by (simp add: Run_halted guard_leave_def)
  have A: "m_InProgress (guard_enter (running_in 1 fresh_queue)) = True"
    by (simp add: guard_enter_def)
  show ?thesis
    unfolding two using A B CDE F by simp
qed


section \<open>CachedBuffer: a failed flush keeps the cached bytes\<close>


lemma memcpy_length: "memcpy buf off src = Inr buf' \<Longrightarrow> length buf' = length buf"
  by (auto simp add: memcpy_def split: if_splits)



lemma EmptyBufferCache_v2_fails:
  assumes "m_BufferOffset b \<noteq> 0"
    and "m_Callback b (take (m_BufferOffset b) (m_Cache b)) (m_CbArgs b) = (n, args)"
    and "unat n = 0"
  shows "EmptyBufferCache_v2 b = Inr (False, b\<lparr>m_CbArgs := args\<rparr>)"
  using assms by (simp add: EmptyBufferCache_v2_def Let_def)

lemma EmptyBufferCache_v2_partial:
  assumes "m_BufferOffset b \<noteq> 0" and "m_BufferOffset b \<le> length (m_Cache b)"
    and "m_Callback b (take (m_BufferOffset b) (m_Cache b)) (m_CbArgs b) = (n, args)"
    and "0 < unat n"
    and "EmptyBufferCache_v2 b = Inr (ok, b1)"
  shows "ok" and "m_BufferOffset b1 = m_BufferOffset b - unat n"
    and "unat n \<le> m_BufferOffset b"
    and "length (m_Cache b1) = length (m_Cache b)"
    and "take (m_BufferOffset b - unat n) (m_Cache b1)
           = drop (unat n) (take (m_BufferOffset b) (m_Cache b))"
proof -
  have le: "unat n \<le> m_BufferOffset b"
    using assms by (auto simp add: EmptyBufferCache_v2_def Let_def split: if_splits)
  let ?left = "m_BufferOffset b - unat n"
  let ?src = "take ?left (drop (unat n) (m_Cache b))"
  have len: "length ?src = ?left" using le assms(2) by simp
  obtain buf where m: "memcpy (m_Cache b) 0 ?src = Inr buf"
    and b1: "b1 = b\<lparr>m_CbArgs := args, m_Cache := buf, m_BufferOffset := ?left\<rparr>" and ok: "ok"
    using assms le by (auto simp add: EmptyBufferCache_v2_def Let_def split: if_splits sum.splits)
  show "ok" by (rule ok)
  show "unat n \<le> m_BufferOffset b" by (rule le)
  show "m_BufferOffset b1 = ?left" using b1 by simp
  show "length (m_Cache b1) = length (m_Cache b)" using b1 memcpy_length [OF m] by simp
  have "buf = ?src @ drop ?left (m_Cache b)"
    using m len by (auto simp add: memcpy_def split: if_splits)
  then have "take ?left buf = ?src" using len by simp
  then show "take ?left (m_Cache b1) = drop (unat n) (take (m_BufferOffset b) (m_Cache b))"
    using b1 by (simp add: drop_take)
qed


text \<open>
  The offset stays within the array through every \<open>Store\<close> that returns, in both
  versions, so the subtraction that computes \<open>BufferSpace\<close> never wraps around.
\<close>

lemma EmptyBufferCache_keeps:
  assumes "m_BufferOffset b \<le> length (m_Cache b)" and "EmptyBufferCache b = Inr (k, b1)"
  shows "m_BufferOffset b1 \<le> length (m_Cache b1)" and "length (m_Cache b1) = length (m_Cache b)"
    and "k \<Longrightarrow> m_BufferOffset b1 = 0"
proof -
  obtain n args where cb: "m_Callback b (take (m_BufferOffset b) (m_Cache b)) (m_CbArgs b) = (n, args)"
    by (cases "m_Callback b (take (m_BufferOffset b) (m_Cache b)) (m_CbArgs b)") auto
  have "b1 = (if m_BufferOffset b = 0 then b
              else if unat n = m_BufferOffset b then b\<lparr>m_CbArgs := args, m_BufferOffset := 0\<rparr>
              else b\<lparr>m_CbArgs := args\<rparr>)"
    and "k = (m_BufferOffset b1 = 0)"
    using assms(2) cb by (auto simp add: EmptyBufferCache_def Let_def split: if_splits)
  then show "m_BufferOffset b1 \<le> length (m_Cache b1)" "length (m_Cache b1) = length (m_Cache b)"
    "k \<Longrightarrow> m_BufferOffset b1 = 0"
    using assms(1) by (simp_all split: if_splits)
qed

lemma EmptyBufferCache_v2_keeps:
  assumes "m_BufferOffset b \<le> length (m_Cache b)" and "EmptyBufferCache_v2 b = Inr (k, b1)"
  shows "m_BufferOffset b1 \<le> length (m_Cache b1)" and "length (m_Cache b1) = length (m_Cache b)"
proof -
  obtain n args where cb: "m_Callback b (take (m_BufferOffset b) (m_Cache b)) (m_CbArgs b) = (n, args)"
    by (cases "m_Callback b (take (m_BufferOffset b) (m_Cache b)) (m_CbArgs b)") auto
  consider "m_BufferOffset b = 0" | "m_BufferOffset b \<noteq> 0" "unat n = 0"
    | "m_BufferOffset b \<noteq> 0" "0 < unat n"
    by auto
  then have "m_BufferOffset b1 \<le> length (m_Cache b1) \<and> length (m_Cache b1) = length (m_Cache b)"
  proof cases
    case 1
    then show ?thesis using assms by (simp add: EmptyBufferCache_v2_def)
  next
    case 2
    then have "b1 = b\<lparr>m_CbArgs := args\<rparr>"
      using assms(2) EmptyBufferCache_v2_fails [OF 2(1) cb 2(2)] by simp
    then show ?thesis using assms(1) by simp
  next
    case 3
    show ?thesis
      using EmptyBufferCache_v2_partial(2,3,4) [OF 3(1) assms(1) cb 3(2) assms(2)] assms(1)
      by simp
  qed
  then show "m_BufferOffset b1 \<le> length (m_Cache b1)" "length (m_Cache b1) = length (m_Cache b)"
    by simp_all
qed

lemma Store_keeps_offset:
  assumes "m_BufferOffset b \<le> length (m_Cache b)"
    and "flush = EmptyBufferCache \<or> flush = EmptyBufferCache_v2"
    and "Store flush Data b = Inr (ok, b')"
  shows "m_BufferOffset b' \<le> length (m_Cache b') \<and> length (m_Cache b') = length (m_Cache b)"
proof -
  have fl: "m_BufferOffset b1 \<le> length (m_Cache b1) \<and> length (m_Cache b1) = length (m_Cache b)"
    if "flush b = Inr (k, b1)" for k b1
    using assms(2) that EmptyBufferCache_keeps(1,2) [OF assms(1)]
      EmptyBufferCache_v2_keeps [OF assms(1)]
    by blast
  show ?thesis
  proof (cases "length (m_Cache b) < length Data")
    case True
    then obtain k b1 where f: "flush b = Inr (k, b1)"
      using assms(3) by (cases "flush b") (auto simp add: Store_def)
    show ?thesis
    proof (cases k)
      case False
      then have "b' = b1" using assms(3) True f by (simp add: Store_def)
      then show ?thesis using fl [OF f] by simp
    next
      case k: True
      obtain n args where "m_Callback b1 Data (m_CbArgs b1) = (n, args)"
        by (cases "m_Callback b1 Data (m_CbArgs b1)") auto
      then have "b' = b1\<lparr>m_CbArgs := args\<rparr>"
        using assms(3) True f k by (simp add: Store_def)
      then show ?thesis using fl [OF f] by simp
    qed
  next
    case False
    let ?pre = "if length (m_Cache b) - m_BufferOffset b < length Data then flush b else Inr (True, b)"
    obtain k b1 where f: "?pre = Inr (k, b1)"
      using assms(3) False by (cases ?pre) (auto simp add: Store_def Let_def)
    have b1: "m_BufferOffset b1 \<le> length (m_Cache b1) \<and> length (m_Cache b1) = length (m_Cache b)"
      using f fl assms(1) by (auto split: if_splits)
    show ?thesis
    proof (cases k)
      case False
      then have "b' = b1" using assms(3) \<open>\<not> length (m_Cache b) < length Data\<close> f
        by (simp add: Store_def Let_def)
      then show ?thesis using b1 by simp
    next
      case k: True
      then obtain buf where m: "memcpy (m_Cache b1) (m_BufferOffset b1) Data = Inr buf"
        and e: "b' = b1\<lparr>m_Cache := buf, m_BufferOffset := m_BufferOffset b1 + length Data\<rparr>"
        using assms(3) False f
        by (cases "memcpy (m_Cache b1) (m_BufferOffset b1) Data") (auto simp add: Store_def Let_def)
      have "m_BufferOffset b1 + length Data \<le> length (m_Cache b1)"
        using m by (auto simp add: memcpy_def split: if_splits)
      then show ?thesis using e b1 memcpy_length [OF m] by simp
    qed
  qed
qed





end
